theory Spec2Isabelle
  imports Complex_Main
begin

section \<open>Doubles\<close>

text \<open>
  The notebook \<^verbatim>\<open>notebooks/portfolio_repl.ipynb\<close> defines four functions:
  \<^verbatim>\<open>bs_elasticity\<close>, \<^verbatim>\<open>kernel_weights\<close>, \<^verbatim>\<open>construct_portfolio\<close> and
  \<^verbatim>\<open>build_portfolios\<close>. They compute with IEEE 754 doubles (Python's \<^verbatim>\<open>float\<close> and
  numpy's \<^verbatim>\<open>float64\<close>). A double is modelled by \<open>npfloat\<close>: \<open>Fin x\<close> is the finite
  double whose value is the real \<open>x\<close> (\<open>Fin 0\<close> is \<^verbatim>\<open>+0.0\<close>), \<open>NZero\<close> is \<^verbatim>\<open>-0.0\<close>, and
  \<open>PInf\<close>, \<open>NInf\<close> and \<open>NaN\<close> are the two infinities and \<^verbatim>\<open>nan\<close>.
\<close>

datatype npfloat = Fin real | NZero | PInf | NInf | NaN

text \<open>
  Rounding to the nearest double, ties to the even significand. \<open>exponent x\<close> is the
  binary exponent of \<open>x\<close>, not below that of the least normal double; doubles with
  that exponent are the multiples of \<open>ulp x\<close>, which gives them 53 significant bits,
  and the subnormal doubles are the multiples of \<open>2 ^ -1074\<close>. \<open>to_double\<close> rounds a
  real to the double an operation returns for it: an infinity when the rounded
  value is beyond the largest double, and a zero with the sign of the exact value
  when that underflows.
\<close>

definition round_half_even :: "real \<Rightarrow> int" where
  "round_half_even x =
     (if x - of_int \<lfloor>x\<rfloor> < 1 / 2 then \<lfloor>x\<rfloor>
      else if 1 / 2 < x - of_int \<lfloor>x\<rfloor> then \<lfloor>x\<rfloor> + 1
      else if even \<lfloor>x\<rfloor> then \<lfloor>x\<rfloor> else \<lfloor>x\<rfloor> + 1)"

definition exponent :: "real \<Rightarrow> int" where
  "exponent x = max \<lfloor>log 2 \<bar>x\<bar>\<rfloor> (- 1022)"

definition ulp :: "real \<Rightarrow> real" where
  "ulp x = 2 powr of_int (exponent x - 52)"

definition rnd :: "real \<Rightarrow> real" where
  "rnd x = of_int (round_half_even (x / ulp x)) * ulp x"

definition to_double :: "real \<Rightarrow> npfloat" where
  "to_double x =
     (if 2 ^ 1024 \<le> \<bar>rnd x\<bar> then (if 0 < x then PInf else NInf)
      else if rnd x = 0 \<and> x < 0 then NZero
      else Fin (rnd x))"

text \<open>The reals that are finite doubles.\<close>

definition is_double :: "real \<Rightarrow> bool" where
  "is_double x \<longleftrightarrow> rnd x = x \<and> \<bar>x\<bar> < 2 ^ 1024"

fun is_finite :: "npfloat \<Rightarrow> bool" where
  "is_finite (Fin a) = True"
| "is_finite NZero = True"
| "is_finite x = False"

text \<open>The value of a finite double, and the sign bit of a double.\<close>

fun real_of :: "npfloat \<Rightarrow> real" where
  "real_of (Fin a) = a"
| "real_of x = 0"

fun signbit :: "npfloat \<Rightarrow> bool" where
  "signbit (Fin a) = (a < 0)"
| "signbit NZero = True"
| "signbit NInf = True"
| "signbit x = False"

definition is_zero :: "npfloat \<Rightarrow> bool" where
  "is_zero x = (is_finite x \<and> real_of x = 0)"

definition signed_zero :: "bool \<Rightarrow> npfloat" where
  "signed_zero negative = (if negative then NZero else Fin 0)"

definition signed_inf :: "bool \<Rightarrow> npfloat" where
  "signed_inf negative = (if negative then NInf else PInf)"

text \<open>
  The arithmetic of IEEE 754, which numpy follows without raising: the exact
  result rounded; \<open>inf - inf\<close>, \<open>0 * inf\<close>, \<open>0 / 0\<close> and \<open>inf / inf\<close> are \<open>nan\<close>; \<open>x / 0\<close>
  is an infinity; the sign of a product and of a quotient is the exclusive or of
  the signs; an exact sum \<open>0\<close> is \<^verbatim>\<open>+0.0\<close> unless both terms are \<^verbatim>\<open>-0.0\<close>.
\<close>

definition np_add :: "npfloat \<Rightarrow> npfloat \<Rightarrow> npfloat" where
  "np_add x y =
     (if x = NaN \<or> y = NaN then NaN
      else if \<not> is_finite x then (if \<not> is_finite y \<and> y \<noteq> x then NaN else x)
      else if \<not> is_finite y then y
      else if real_of x + real_of y = 0 then (if x = NZero \<and> y = NZero then NZero else Fin 0)
      else to_double (real_of x + real_of y))"

fun np_negative :: "npfloat \<Rightarrow> npfloat" where
  "np_negative (Fin a) = (if a = 0 then NZero else Fin (- a))"
| "np_negative NZero = Fin 0"
| "np_negative PInf = NInf"
| "np_negative NInf = PInf"
| "np_negative NaN = NaN"

definition np_multiply :: "npfloat \<Rightarrow> npfloat \<Rightarrow> npfloat" where
  "np_multiply x y =
     (if x = NaN \<or> y = NaN then NaN
      else if is_finite x \<and> is_finite y then
        (if real_of x * real_of y = 0 then signed_zero (signbit x \<noteq> signbit y)
         else to_double (real_of x * real_of y))
      else if is_zero x \<or> is_zero y then NaN
      else signed_inf (signbit x \<noteq> signbit y))"

definition np_true_divide :: "npfloat \<Rightarrow> npfloat \<Rightarrow> npfloat" where
  "np_true_divide x y =
     (if x = NaN \<or> y = NaN then NaN
      else if is_finite x \<and> is_finite y then
        (if real_of y = 0 then (if real_of x = 0 then NaN else signed_inf (signbit x \<noteq> signbit y))
         else if real_of x = 0 then signed_zero (signbit x \<noteq> signbit y)
         else to_double (real_of x / real_of y))
      else if is_finite x then signed_zero (signbit x \<noteq> signbit y)
      else if is_finite y then signed_inf (signbit x \<noteq> signbit y)
      else NaN)"

instantiation npfloat :: "{plus, minus, uminus, times, inverse}"
begin

definition plus_npfloat :: "npfloat \<Rightarrow> npfloat \<Rightarrow> npfloat" where
  "plus_npfloat x y = np_add x y"

definition uminus_npfloat :: "npfloat \<Rightarrow> npfloat" where
  "uminus_npfloat x = np_negative x"

definition minus_npfloat :: "npfloat \<Rightarrow> npfloat \<Rightarrow> npfloat" where
  "minus_npfloat x y = np_add x (np_negative y)"

definition times_npfloat :: "npfloat \<Rightarrow> npfloat \<Rightarrow> npfloat" where
  "times_npfloat x y = np_multiply x y"

definition divide_npfloat :: "npfloat \<Rightarrow> npfloat \<Rightarrow> npfloat" where
  "divide_npfloat x y = np_true_divide x y"

definition inverse_npfloat :: "npfloat \<Rightarrow> npfloat" where
  "inverse_npfloat x = np_true_divide (Fin 1) x"

instance ..

end

text \<open>
  \<^verbatim>\<open>np.sqrt\<close>, \<^verbatim>\<open>np.log\<close> and \<^verbatim>\<open>np.exp\<close> return the exact value rounded (the library
  functions are within an ulp of it; the theorems below rest on the sign, the order
  and the saturation of the results, not on their last bit). They raise nothing:
  the logarithm of zero is \<^verbatim>\<open>-inf\<close>, and the logarithm and the square root of a
  negative number are \<open>nan\<close>. \<^verbatim>\<open>np.exp\<close> underflows to \<^verbatim>\<open>0.0\<close> and overflows to \<^verbatim>\<open>inf\<close>.
\<close>

fun np_log :: "npfloat \<Rightarrow> npfloat" where
  "np_log (Fin a) = (if a < 0 then NaN else if a = 0 then NInf else to_double (ln a))"
| "np_log NZero = NInf"
| "np_log PInf = PInf"
| "np_log NInf = NaN"
| "np_log NaN = NaN"

fun np_sqrt :: "npfloat \<Rightarrow> npfloat" where
  "np_sqrt (Fin a) = (if a < 0 then NaN else to_double (sqrt a))"
| "np_sqrt NZero = NZero"
| "np_sqrt PInf = PInf"
| "np_sqrt NInf = NaN"
| "np_sqrt NaN = NaN"

fun np_exp :: "npfloat \<Rightarrow> npfloat" where
  "np_exp (Fin a) = to_double (exp a)"
| "np_exp NZero = Fin 1"
| "np_exp PInf = PInf"
| "np_exp NInf = Fin 0"
| "np_exp NaN = NaN"

text \<open>The comparison \<^verbatim>\<open>x > y\<close>: false as soon as one side is \<open>nan\<close>; the two zeros are equal.\<close>

definition np_greater :: "npfloat \<Rightarrow> npfloat \<Rightarrow> bool" where
  "np_greater x y =
     (x \<noteq> NaN \<and> y \<noteq> NaN \<and> x \<noteq> NInf \<and> y \<noteq> PInf
      \<and> (x = PInf \<or> y = NInf \<or> real_of y < real_of x))"

text \<open>
  \<^verbatim>\<open>ndarray.sum()\<close> adds the entries from left to right (numpy adds in another
  order from eight entries on; no array that is summed here has more than two).
  The \<^verbatim>\<open>sum()\<close> of a pandas Series skips the \<open>nan\<close> entries (\<^verbatim>\<open>skipna=True\<close>), and is
  \<open>0.0\<close> on an empty Series. The sign of a sum that is zero is not modelled: it is
  \<^verbatim>\<open>+0.0\<close> here.
\<close>

definition np_sum :: "npfloat list \<Rightarrow> npfloat" where
  "np_sum xs = foldl (+) (Fin 0) xs"

definition pd_sum :: "npfloat list \<Rightarrow> npfloat" where
  "pd_sum xs = np_sum (filter (\<lambda>x. x \<noteq> NaN) xs)"

section \<open>Python values and exceptions\<close>

text \<open>
  A call that raises is \<open>Inl\<close> of the exception. \<open>py_map f xs\<close> runs \<open>f\<close> over \<open>xs\<close>
  in order, as a loop or a vectorised call does, and stops at the first exception.
\<close>

datatype py_error = ValueError | ZeroDivisionError | OverflowError

fun py_map :: "('a \<Rightarrow> py_error + 'b) \<Rightarrow> 'a list \<Rightarrow> py_error + 'b list" where
  "py_map f [] = Inr []"
| "py_map f (x # xs) =
     (case f x of
        Inl e \<Rightarrow> Inl e
      | Inr y \<Rightarrow> (case py_map f xs of Inl e \<Rightarrow> Inl e | Inr ys \<Rightarrow> Inr (y # ys)))"

text \<open>
  A number handed to \<^verbatim>\<open>bs_elasticity\<close> is a Python \<^verbatim>\<open>float\<close> (\<open>PyFloat\<close>) or a numpy
  double, an entry of a column or a \<^verbatim>\<open>float64\<close> scalar (\<open>Float64\<close>). The two differ in
  two operations of the function. The quotient \<^verbatim>\<open>S / K\<close> of two Python floats raises
  \<^verbatim>\<open>ZeroDivisionError\<close> when \<^verbatim>\<open>K\<close> is a zero; as soon as one side is a numpy double
  it is numpy's quotient, which raises nothing. The power \<^verbatim>\<open>sigma ** 2\<close> of a
  Python float raises \<^verbatim>\<open>OverflowError\<close> when \<^verbatim>\<open>sigma\<close> is finite and its square is
  not; numpy's power is \<^verbatim>\<open>inf\<close> there. The square is \<open>sigma * sigma\<close> rounded. Every
  other operation of the function is the same for both, and the \<^verbatim>\<open>np.\<close> and
  \<^verbatim>\<open>norm.\<close> functions return numpy doubles.
\<close>

datatype pynum = PyFloat npfloat | Float64 npfloat

fun the_double :: "pynum \<Rightarrow> npfloat" where
  "the_double (PyFloat x) = x"
| "the_double (Float64 x) = x"

fun py_truediv :: "pynum \<Rightarrow> pynum \<Rightarrow> py_error + npfloat" where
  "py_truediv (PyFloat a) (PyFloat b) = (if is_zero b then Inl ZeroDivisionError else Inr (a / b))"
| "py_truediv x y = Inr (the_double x / the_double y)"

fun py_square :: "pynum \<Rightarrow> py_error + npfloat" where
  "py_square (PyFloat a) =
     (if is_finite a \<and> \<not> is_finite (a * a) then Inl OverflowError else Inr (a * a))"
| "py_square (Float64 a) = Inr (a * a)"

section \<open>The standard normal distribution function\<close>

text \<open>
  \<^verbatim>\<open>scipy.stats.norm.cdf\<close> is the distribution function of the standard normal law:
  the integral of \<open>exp (- t\<^sup>2 / 2)\<close> from \<open>-\<infinity>\<close> to \<open>x\<close>, divided by the integral over
  the whole line. \<open>gauss_int x\<close> is the integral from \<open>0\<close> to \<open>x\<close>, as the power series
  obtained by integrating the exponential series term by term; \<open>gauss_mass\<close> is the
  integral over the whole line, twice the least upper bound of \<open>gauss_int\<close> (its
  value is \<open>sqrt (2 * pi)\<close>, a fact this development does not need). \<open>norm_cdf\<close> is
  the value rounded to a double: \<^verbatim>\<open>0.0\<close> far in the left tail, where the value
  underflows, and \<^verbatim>\<open>1.0\<close> far in the right tail.
\<close>

definition gauss_coeff :: "nat \<Rightarrow> real" where
  "gauss_coeff n =
     (if odd n then (- 1 / 2) ^ (n div 2) / (fact (n div 2) * real n) else 0)"

definition gauss_int :: "real \<Rightarrow> real" where
  "gauss_int x = (\<Sum>n. gauss_coeff n * x ^ n)"

definition gauss_mass :: real where
  "gauss_mass = 2 * (SUP x. gauss_int x)"

definition Phi :: "real \<Rightarrow> real" where
  "Phi x = 1 / 2 + gauss_int x / gauss_mass"

fun norm_cdf :: "npfloat \<Rightarrow> npfloat" where
  "norm_cdf (Fin a) = to_double (Phi a)"
| "norm_cdf NZero = Fin (1 / 2)"
| "norm_cdf PInf = Fin 1"
| "norm_cdf NInf = Fin 0"
| "norm_cdf NaN = NaN"

section \<open>The notebook's functions\<close>

subsection \<open>Black-Scholes elasticity\<close>

text \<open>
  \<^verbatim>\<open>
  def bs_elasticity(S, K, T, r, sigma, option_type='call'):
      d1 = (np.log(S / K) + (r + 0.5 * sigma ** 2) * T) / (sigma * np.sqrt(T))
      if option_type == 'call':
          price = S * norm.cdf(d1) - K * np.exp(-r * T) * norm.cdf(d1 - sigma * np.sqrt(T))
          delta = norm.cdf(d1)
      else:
          price = K * np.exp(-r * T) * norm.cdf(-d1 + sigma * np.sqrt(T)) - S * norm.cdf(-d1)
          delta = -norm.cdf(-d1)
      return (delta * S / price), price
  \<close>
  \<^verbatim>\<open>S / K\<close> is evaluated before \<^verbatim>\<open>sigma ** 2\<close>. From \<^verbatim>\<open>np.log\<close> on every value is a
  numpy double. The returned tuple is the list of its components.
\<close>

definition bs_d1 :: "pynum \<Rightarrow> pynum \<Rightarrow> pynum \<Rightarrow> pynum \<Rightarrow> pynum \<Rightarrow> py_error + npfloat" where
  "bs_d1 S K T r sigma =
     (case py_truediv S K of
        Inl e \<Rightarrow> Inl e
      | Inr ratio \<Rightarrow>
          (case py_square sigma of
             Inl e \<Rightarrow> Inl e
           | Inr squared \<Rightarrow>
               Inr ((np_log ratio + (the_double r + Fin 0.5 * squared) * the_double T)
                    / (the_double sigma * np_sqrt (the_double T)))))"

definition bs_price ::
  "npfloat \<Rightarrow> npfloat \<Rightarrow> npfloat \<Rightarrow> npfloat \<Rightarrow> npfloat \<Rightarrow> npfloat \<Rightarrow> string \<Rightarrow> npfloat" where
  "bs_price d1 S K T r sigma option_type =
     (if option_type = ''call''
      then S * norm_cdf d1 - K * np_exp (- r * T) * norm_cdf (d1 - sigma * np_sqrt T)
      else K * np_exp (- r * T) * norm_cdf (- d1 + sigma * np_sqrt T) - S * norm_cdf (- d1))"

definition bs_delta :: "npfloat \<Rightarrow> string \<Rightarrow> npfloat" where
  "bs_delta d1 option_type =
     (if option_type = ''call'' then norm_cdf d1 else - norm_cdf (- d1))"

definition bs_elasticity ::
  "pynum \<Rightarrow> pynum \<Rightarrow> pynum \<Rightarrow> pynum \<Rightarrow> pynum \<Rightarrow> string \<Rightarrow> py_error + npfloat list" where
  "bs_elasticity S K T r sigma option_type =
     (case bs_d1 S K T r sigma of
        Inl e \<Rightarrow> Inl e
      | Inr d1 \<Rightarrow>
          (let price = bs_price d1 (the_double S) (the_double K) (the_double T) (the_double r)
                         (the_double sigma) option_type;
               delta = bs_delta d1 option_type
           in Inr [delta * the_double S / price, price]))"

subsection \<open>Kernel weights\<close>

text \<open>
  \<^verbatim>\<open>
  def kernel_weights(moneyness_grid, maturity_grid, k_s, ttm, bw_m=0.0125, bw_t=10):
      grid = np.column_stack((moneyness_grid, maturity_grid))
      point = np.array([[k_s, ttm]])
      dists = cdist(grid, point, 'euclidean')[:, 0]
      weights = np.exp(-0.5 * (dists / np.array([bw_m, bw_t])).sum())
      return weights / weights.sum()
  \<close>
  \<open>column_stack\<close> needs two columns of one length. \<open>dists\<close> has one entry for each row
  of the grid; its quotient by the array of the two bandwidths follows numpy's
  broadcasting of one-dimensional arrays (\<open>np_broadcast\<close>): equal lengths pair up
  entry by entry, a length of \<open>1\<close> is stretched, and any other pair of lengths raises
  \<^verbatim>\<open>ValueError\<close>. \<^verbatim>\<open>.sum()\<close> makes the quotient a scalar, so \<open>weights\<close> is a scalar and
  \<^verbatim>\<open>weights.sum()\<close> is \<open>weights\<close> itself.
\<close>

definition column_stack :: "npfloat list \<Rightarrow> npfloat list \<Rightarrow> py_error + (npfloat \<times> npfloat) list" where
  "column_stack a b = (if length a = length b then Inr (zip a b) else Inl ValueError)"

definition cdist_col :: "(npfloat \<times> npfloat) list \<Rightarrow> npfloat \<times> npfloat \<Rightarrow> npfloat list" where
  "cdist_col grid point =
     map (\<lambda>g. np_sqrt ((fst g - fst point) * (fst g - fst point)
                      + (snd g - snd point) * (snd g - snd point))) grid"

definition np_broadcast :: "'a list \<Rightarrow> 'b list \<Rightarrow> py_error + ('a \<times> 'b) list" where
  "np_broadcast xs ys =
     (if length xs = length ys then Inr (zip xs ys)
      else if length xs = 1 then Inr (map (\<lambda>y. (hd xs, y)) ys)
      else if length ys = 1 then Inr (map (\<lambda>x. (x, hd ys)) xs)
      else Inl ValueError)"

definition kernel_weights ::
  "npfloat list \<Rightarrow> npfloat list \<Rightarrow> npfloat \<Rightarrow> npfloat \<Rightarrow> npfloat \<Rightarrow> npfloat \<Rightarrow> py_error + npfloat" where
  "kernel_weights moneyness_grid maturity_grid k_s ttm bw_m bw_t =
     (case column_stack moneyness_grid maturity_grid of
        Inl e \<Rightarrow> Inl e
      | Inr grid \<Rightarrow>
          (let dists = cdist_col grid (k_s, ttm) in
           case np_broadcast dists [bw_m, bw_t] of
             Inl e \<Rightarrow> Inl e
           | Inr pairs \<Rightarrow>
               (let weights = np_exp (Fin (- 0.5) * np_sum (map (\<lambda>(d, b). d / b) pairs))
                in Inr (weights / weights))))"

subsection \<open>The portfolio of one bucket\<close>

text \<open>
  A row of the quote table. \<open>construct_portfolio\<close> reads seven columns; the table
  may hold others, of which \<open>implied_rate\<close> stands here.
\<close>

record quote =
  option_type :: string
  moneyness :: npfloat
  ttm :: npfloat
  underlying :: npfloat
  strike :: npfloat
  iv :: npfloat
  daily_return :: npfloat
  implied_rate :: npfloat

text \<open>
  \<^verbatim>\<open>
  def construct_portfolio(data, k_s_target, ttm_target, option_type='call', r=0.01):
      subset = data[(data['option_type'] == option_type)]
      weights = kernel_weights(subset['moneyness'], subset['ttm'], k_s_target, ttm_target)
      subset = subset.assign(weight=weights)
      subset = subset[subset['weight'] > 0.01]
      subset['weight'] /= subset['weight'].sum()
  \<close>
  \<open>weighted_subset\<close> is \<open>subset\<close> after these lines: the rows that are kept, each
  with its weight. \<open>assign\<close> gives the scalar \<open>weights\<close> to every row. The literals
  \<^verbatim>\<open>0.0125\<close> and \<^verbatim>\<open>0.01\<close> are the doubles nearest to them.
\<close>

definition weighted_subset ::
  "quote list \<Rightarrow> npfloat \<Rightarrow> npfloat \<Rightarrow> string \<Rightarrow> py_error + (quote \<times> npfloat) list" where
  "weighted_subset data k_s_target ttm_target opt =
     (let rows = filter (\<lambda>q. option_type q = opt) data in
      case kernel_weights (map moneyness rows) (map ttm rows) k_s_target ttm_target
             (to_double 0.0125) (Fin 10) of
        Inl e \<Rightarrow> Inl e
      | Inr weights \<Rightarrow>
          (let assigned = map (\<lambda>q. (q, weights)) rows;
               kept = filter (\<lambda>(q, w). np_greater w (to_double 0.01)) assigned;
               total = pd_sum (map snd kept)
           in Inr (map (\<lambda>(q, w). (q, w / total)) kept)))"

text \<open>
  \<^verbatim>\<open>
      elast, price = bs_elasticity(
          S=subset['underlying'], K=subset['strike'], T=subset['ttm']/365,
          r=r, sigma=subset['iv'], option_type=option_type
      )
      subset['leverage_return'] = subset['daily_return'] / elast
      return (subset['leverage_return'] * subset['weight']).sum()
  \<close>
  numpy applies \<open>bs_elasticity\<close> to the columns entry by entry: \<open>leverage_return\<close> is
  the entry of one row. The columns hold numpy doubles and \<open>r\<close> is a Python float.
  Unpacking a tuple that has not two components raises \<^verbatim>\<open>ValueError\<close>.
\<close>

definition leverage_return :: "quote \<Rightarrow> npfloat \<Rightarrow> string \<Rightarrow> py_error + npfloat" where
  "leverage_return q r opt =
     (case bs_elasticity (Float64 (underlying q)) (Float64 (strike q)) (Float64 (ttm q / Fin 365))
             (PyFloat r) (Float64 (iv q)) opt of
        Inl e \<Rightarrow> Inl e
      | Inr [elast, price] \<Rightarrow> Inr (daily_return q / elast)
      | Inr other \<Rightarrow> Inl ValueError)"

definition construct_portfolio ::
  "quote list \<Rightarrow> npfloat \<Rightarrow> npfloat \<Rightarrow> string \<Rightarrow> npfloat \<Rightarrow> py_error + npfloat" where
  "construct_portfolio data k_s_target ttm_target opt r =
     (case weighted_subset data k_s_target ttm_target opt of
        Inl e \<Rightarrow> Inl e
      | Inr rows \<Rightarrow>
          (case py_map (\<lambda>(q, w). leverage_return q r opt) rows of
             Inl e \<Rightarrow> Inl e
           | Inr lev \<Rightarrow> Inr (pd_sum (map (\<lambda>(l, (q, w)). l * w) (zip lev rows)))))"

subsection \<open>The panel\<close>

text \<open>
  \<^verbatim>\<open>
  def build_portfolios(option_data, m_grid, ttm_grid, option_types=['call', 'put']):
      portfolios = []
      for opt_type in option_types:
          for k_s in m_grid:
              for ttm in ttm_grid:
                  ret = construct_portfolio(option_data, k_s, ttm, option_type=opt_type)
                  portfolios.append({'type': opt_type, 'moneyness': k_s,
                                     'ttm': ttm, 'return': ret})
      return pd.DataFrame(portfolios)
  \<close>
  \<open>grid_triples\<close> lists the triples in the order the three loops visit them;
  \<open>construct_portfolio\<close> is called with its default \<open>r = 0.01\<close>.
\<close>

record portfolio_row =
  p_type :: string
  p_moneyness :: npfloat
  p_ttm :: npfloat
  p_return :: npfloat

definition grid_triples :: "npfloat list \<Rightarrow> npfloat list \<Rightarrow> string list \<Rightarrow> (string \<times> npfloat \<times> npfloat) list" where
  "grid_triples m_grid ttm_grid option_types =
     concat (map (\<lambda>opt_type. concat (map (\<lambda>k_s. map (\<lambda>t. (opt_type, k_s, t)) ttm_grid) m_grid))
               option_types)"

definition build_portfolios ::
  "quote list \<Rightarrow> npfloat list \<Rightarrow> npfloat list \<Rightarrow> string list \<Rightarrow> py_error + portfolio_row list" where
  "build_portfolios option_data m_grid ttm_grid option_types =
     py_map (\<lambda>(opt_type, k_s, t).
               case construct_portfolio option_data k_s t opt_type (to_double 0.01) of
                 Inl e \<Rightarrow> Inl e
               | Inr ret \<Rightarrow>
                   Inr \<lparr>p_type = opt_type, p_moneyness = k_s, p_ttm = t, p_return = ret\<rparr>)
       (grid_triples m_grid ttm_grid option_types)"

section \<open>Vocabulary of the claims\<close>

text \<open>
  The comparison \<^verbatim>\<open>x >= y\<close> of doubles, and a quote table row for the examples:
  an at-the-money option on an index at 100, its days to maturity and its implied
  volatility left open.
\<close>

definition np_greater_equal :: "npfloat \<Rightarrow> npfloat \<Rightarrow> bool" where
  "np_greater_equal x y = (x \<noteq> NaN \<and> y \<noteq> NaN \<and> \<not> np_greater y x)"

definition example_quote :: "string \<Rightarrow> real \<Rightarrow> real \<Rightarrow> quote" where
  "example_quote opt days vol =
     \<lparr>option_type = opt, moneyness = Fin 1, ttm = Fin days, underlying = Fin 100,
      strike = Fin 100, iv = to_double vol, daily_return = to_double 0.01,
      implied_rate = to_double 0.02\<rparr>"

text \<open>A row with its implied rate blanked: two tables that differ in that column only
  agree once it is blanked.\<close>

definition erase_rate :: "quote \<Rightarrow> quote" where
  "erase_rate q = q\<lparr>implied_rate := NaN\<rparr>"





definition rounded_d1 :: "npfloat \<Rightarrow> npfloat \<Rightarrow> npfloat \<Rightarrow> npfloat \<Rightarrow> npfloat \<Rightarrow> npfloat" where
  "rounded_d1 S K T r sigma =
     (np_log (S / K) + (r + sigma * sigma / Fin 2) * T) / (sigma * np_sqrt T)"

definition rounded_price ::
  "bool \<Rightarrow> npfloat \<Rightarrow> npfloat \<Rightarrow> npfloat \<Rightarrow> npfloat \<Rightarrow> npfloat \<Rightarrow> npfloat" where
  "rounded_price call S K T r sigma =
     (let d1 = rounded_d1 S K T r sigma in
      if call then S * norm_cdf d1 - K * np_exp (- (r * T)) * norm_cdf (d1 - sigma * np_sqrt T)
      else K * np_exp (- (r * T)) * norm_cdf (- d1 + sigma * np_sqrt T) - S * norm_cdf (- d1))"

definition rounded_delta ::
  "bool \<Rightarrow> npfloat \<Rightarrow> npfloat \<Rightarrow> npfloat \<Rightarrow> npfloat \<Rightarrow> npfloat \<Rightarrow> npfloat" where
  "rounded_delta call S K T r sigma =
     (let d1 = rounded_d1 S K T r sigma in if call then norm_cdf d1 else - norm_cdf (- d1))"

definition rounded_elasticity ::
  "bool \<Rightarrow> npfloat \<Rightarrow> npfloat \<Rightarrow> npfloat \<Rightarrow> npfloat \<Rightarrow> npfloat \<Rightarrow> npfloat" where
  "rounded_elasticity call S K T r sigma =
     rounded_delta call S K T r sigma * S / rounded_price call S K T r sigma"

text \<open>
  The inputs on which the two operations of \<^verbatim>\<open>bs_elasticity\<close> that can raise do so:
  the quotient \<^verbatim>\<open>S / K\<close> of two Python floats with \<^verbatim>\<open>K\<close> a zero, and the square of a
  finite Python float that is not finite.
\<close>

fun python_quotient_raises :: "pynum \<Rightarrow> pynum \<Rightarrow> bool" where
  "python_quotient_raises (PyFloat a) (PyFloat b) = is_zero b"
| "python_quotient_raises x y = False"

fun python_square_raises :: "pynum \<Rightarrow> bool" where
  "python_square_raises (PyFloat a) = (is_finite a \<and> \<not> is_finite (a * a))"
| "python_square_raises (Float64 a) = False"

text \<open>The doubles that are \<^verbatim>\<open>+0.0\<close>, positive or \<^verbatim>\<open>+inf\<close>.\<close>

definition nonnegative :: "npfloat \<Rightarrow> bool" where
  "nonnegative x = (x \<noteq> NaN \<and> \<not> signbit x)"

section \<open>Rounding to the nearest double\<close>

lemma rhe_of_int [simp]: "round_half_even (of_int n) = n"
  by (simp add: round_half_even_def)

lemma rhe_zero [simp]: "round_half_even 0 = 0"
  using rhe_of_int [of 0] by simp

lemma rhe_floor_le: "\<lfloor>x\<rfloor> \<le> round_half_even x"
  by (simp add: round_half_even_def)

lemma rhe_le_floor: "round_half_even x \<le> \<lfloor>x\<rfloor> + 1"
  by (simp add: round_half_even_def)

lemma rhe_ge:
  assumes "of_int n \<le> x"
  shows "n \<le> round_half_even x"
proof -
  from assms have "n \<le> \<lfloor>x\<rfloor>" by (simp add: le_floor_iff)
  with rhe_floor_le [of x] show ?thesis by linarith
qed

lemma rhe_le:
  assumes "x \<le> of_int n"
  shows "round_half_even x \<le> n"
proof (cases "x = of_int n")
  case True
  then show ?thesis by simp
next
  case False
  with assms have "x < of_int n" by simp
  then have "\<lfloor>x\<rfloor> < n" by (simp add: floor_less_iff)
  with rhe_le_floor [of x] show ?thesis by linarith
qed

lemma rhe_mono:
  assumes "x \<le> y"
  shows "round_half_even x \<le> round_half_even y"
proof (cases "\<lfloor>x\<rfloor> = \<lfloor>y\<rfloor>")
  case True
  then show ?thesis
    using assms by (auto simp: round_half_even_def)
next
  case False
  with floor_mono [OF assms] have "\<lfloor>x\<rfloor> < \<lfloor>y\<rfloor>" by linarith
  with rhe_le_floor [of x] rhe_floor_le [of y] show ?thesis by linarith
qed

lemma rhe_minus: "round_half_even (- x) = - round_half_even x"
proof (cases "x = of_int \<lfloor>x\<rfloor>")
  case True
  then obtain n where "x = of_int n" ..
  then show ?thesis by (simp flip: of_int_minus)
next
  case False
  have fl: "\<lfloor>- x\<rfloor> = - \<lfloor>x\<rfloor> - 1"
    using False by (simp add: floor_minus ceiling_altdef)
  show ?thesis
    unfolding round_half_even_def fl using False by auto
qed

lemma ulp_pos [simp]: "0 < ulp x"
  by (simp add: ulp_def)

lemma ulp_nonzero [simp]: "ulp x \<noteq> 0"
  using ulp_pos [of x] by linarith

lemma ulp_nonneg [simp]: "0 \<le> ulp x"
  using ulp_pos [of x] by linarith

lemma exponent_minus [simp]: "exponent (- x) = exponent x"
  by (simp add: exponent_def)

lemma ulp_minus [simp]: "ulp (- x) = ulp x"
  by (simp add: ulp_def)

lemma rnd_minus: "rnd (- x) = - rnd x"
  by (simp add: rnd_def rhe_minus)

lemma rnd_zero [simp]: "rnd 0 = 0"
  by (simp add: rnd_def)

lemma exponent_ge: "- 1022 \<le> exponent x"
  by (simp add: exponent_def)

lemma abs_less_powr_exponent:
  assumes "x \<noteq> 0"
  shows "\<bar>x\<bar> < 2 powr of_int (exponent x + 1)"
proof -
  have "log 2 \<bar>x\<bar> < of_int \<lfloor>log 2 \<bar>x\<bar>\<rfloor> + 1" by linarith
  also have "\<dots> \<le> of_int (exponent x + 1)" by (simp add: exponent_def)
  finally show ?thesis using assms by (simp add: log_less_iff)
qed

lemma powr_exponent_le_abs:
  assumes "x \<noteq> 0" and "- 1022 < exponent x"
  shows "2 powr of_int (exponent x) \<le> \<bar>x\<bar>"
proof -
  from assms(2) have "exponent x = \<lfloor>log 2 \<bar>x\<bar>\<rfloor>"
    by (simp add: exponent_def max_def split: if_splits)
  then have "of_int (exponent x) \<le> log 2 \<bar>x\<bar>" by simp
  then show ?thesis using assms(1) by (simp add: powr_le_iff)
qed

lemma exponent_mono:
  assumes "x \<noteq> 0" and "\<bar>x\<bar> \<le> \<bar>y\<bar>"
  shows "exponent x \<le> exponent y"
proof -
  have "log 2 \<bar>x\<bar> \<le> log 2 \<bar>y\<bar>" using assms by simp
  then have "\<lfloor>log 2 \<bar>x\<bar>\<rfloor> \<le> \<lfloor>log 2 \<bar>y\<bar>\<rfloor>" by (rule floor_mono)
  then show ?thesis by (simp add: exponent_def)
qed

lemma powr_exponent_succ: "(2::real) powr of_int (exponent x + 1) = 2 ^ 53 * ulp x"
proof -
  have "(2::real) powr of_int (exponent x + 1) = 2 powr (53 + of_int (exponent x - 52))"
    by (simp add: add.commute)
  also have "\<dots> = 2 powr 53 * 2 powr of_int (exponent x - 52)"
    by (rule powr_add)
  finally show ?thesis by (simp add: ulp_def)
qed

lemma powr_exponent: "(2::real) powr of_int (exponent x) = 2 ^ 52 * ulp x"
proof -
  have "(2::real) powr of_int (exponent x) = 2 powr (52 + of_int (exponent x - 52))"
    by simp
  also have "\<dots> = 2 powr 52 * 2 powr of_int (exponent x - 52)"
    by (rule powr_add)
  finally show ?thesis by (simp add: ulp_def)
qed

lemma abs_less_ulp: "x \<noteq> 0 \<Longrightarrow> \<bar>x\<bar> < 2 ^ 53 * ulp x"
  using abs_less_powr_exponent [of x] unfolding powr_exponent_succ by simp

lemma rnd_mono_pos:
  assumes "0 < x" and "x \<le> y"
  shows "rnd x \<le> rnd y"
proof (cases "exponent x = exponent y")
  case True
  then have u: "ulp x = ulp y" by (simp add: ulp_def)
  have "x / ulp y \<le> y / ulp y"
    using assms(2) by (rule divide_right_mono) simp
  then have "round_half_even (x / ulp y) \<le> round_half_even (y / ulp y)"
    by (rule rhe_mono)
  then show ?thesis
    unfolding rnd_def u by (simp add: mult_right_mono)
next
  case False
  have "exponent x \<le> exponent y"
    using assms by (intro exponent_mono) auto
  with False have lt: "exponent x + 1 \<le> exponent y" by simp
  have a: "rnd x \<le> 2 powr of_int (exponent x + 1)"
  proof -
    have "x / ulp x \<le> of_int (2 ^ 53)"
      using abs_less_ulp [of x] assms(1) by (simp add: divide_le_eq)
    then have "round_half_even (x / ulp x) \<le> 2 ^ 53"
      by (rule rhe_le)
    then have "real_of_int (round_half_even (x / ulp x)) \<le> real_of_int (2 ^ 53)"
      by (simp only: of_int_le_iff)
    then show ?thesis
      unfolding rnd_def powr_exponent_succ by (simp add: mult_right_mono)
  qed
  have b: "2 powr of_int (exponent y) \<le> rnd y"
  proof -
    have y: "0 < y" using assms by simp
    have "- 1022 < exponent y"
      using lt exponent_ge [of x] by linarith
    then have "2 ^ 52 * ulp y \<le> y"
      using powr_exponent_le_abs [of y] y by (simp add: powr_exponent)
    then have "of_int (2 ^ 52) \<le> y / ulp y"
      by (simp add: le_divide_eq)
    then have "2 ^ 52 \<le> round_half_even (y / ulp y)"
      by (rule rhe_ge)
    then have "real_of_int (2 ^ 52) \<le> real_of_int (round_half_even (y / ulp y))"
      by (simp only: of_int_le_iff)
    then show ?thesis
      unfolding rnd_def powr_exponent by (simp add: mult_right_mono)
  qed
  have "(2::real) powr of_int (exponent x + 1) \<le> 2 powr of_int (exponent y)"
    using lt by (intro powr_mono) simp_all
  with a b show ?thesis by linarith
qed

lemma rnd_nonneg: "0 \<le> x \<Longrightarrow> 0 \<le> rnd x"
proof -
  assume "0 \<le> x"
  then have "0 \<le> x / ulp x" by (rule divide_nonneg_nonneg) simp
  then have "of_int 0 \<le> x / ulp x" by simp
  then have "0 \<le> round_half_even (x / ulp x)" by (rule rhe_ge)
  then show ?thesis by (simp add: rnd_def)
qed

lemma rnd_mono:
  assumes "x \<le> y"
  shows "rnd x \<le> rnd y"
proof -
  consider "0 < x" | "x \<le> 0" "0 \<le> y" | "y < 0" by linarith
  then show ?thesis
  proof cases
    case 1
    then show ?thesis using assms by (rule rnd_mono_pos)
  next
    case 2
    then have "0 \<le> rnd (- x)" "0 \<le> rnd y"
      by (simp_all add: rnd_nonneg)
    then show ?thesis by (simp add: rnd_minus)
  next
    case 3
    then have "rnd (- y) \<le> rnd (- x)"
      using assms by (intro rnd_mono_pos) simp_all
    then show ?thesis by (simp add: rnd_minus)
  qed
qed

lemma exponent_eqI:
  assumes "2 powr of_int e \<le> \<bar>x\<bar>" and "\<bar>x\<bar> < 2 powr of_int (e + 1)" and "- 1022 \<le> e"
  shows "exponent x = e"
proof -
  have "0 < (2::real) powr of_int e" by simp
  with assms(1) have "0 < \<bar>x\<bar>" by linarith
  then have "\<lfloor>log 2 \<bar>x\<bar>\<rfloor> = e"
    using assms(1,2) by (subst floor_log_eq_powr_iff) simp_all
  then show ?thesis using assms(3) by (simp add: exponent_def)
qed

lemma exponent_subnormal:
  assumes "\<bar>x\<bar> < 2 powr (- 1022)" and "x \<noteq> 0"
  shows "exponent x = - 1022"
proof -
  have "log 2 \<bar>x\<bar> < - 1022"
    using assms by (simp add: log_less_iff)
  then have "\<lfloor>log 2 \<bar>x\<bar>\<rfloor> < - 1022"
    by (simp add: floor_less_iff)
  then show ?thesis by (simp add: exponent_def)
qed

lemma rhe_near:
  assumes "\<bar>y - of_int n\<bar> < 1 / 2"
  shows "round_half_even y = n"
proof (cases "of_int n \<le> y")
  case True
  with assms have "\<lfloor>y\<rfloor> = n" by (intro floor_unique) linarith+
  with assms True show ?thesis by (simp add: round_half_even_def)
next
  case False
  with assms have "\<lfloor>y\<rfloor> = n - 1" by (intro floor_unique) (simp, linarith+)
  with assms False show ?thesis by (simp add: round_half_even_def)
qed

lemma rhe_half: "0 \<le> y \<Longrightarrow> y \<le> 1 / 2 \<Longrightarrow> round_half_even y = 0"
proof -
  assume a: "0 \<le> y" "y \<le> 1 / 2"
  then have "\<lfloor>y\<rfloor> = 0" by (intro floor_unique) simp_all
  with a show ?thesis by (simp add: round_half_even_def)
qed

lemma rnd_dyadic:
  assumes "\<bar>n\<bar> < 2 ^ 53" and "- 1074 \<le> k"
  shows "rnd (of_int n * 2 powr of_int k) = of_int n * 2 powr of_int k"
proof (cases "n = 0")
  case True
  then show ?thesis by simp
next
  case False
  define x :: real where "x = of_int n * 2 powr of_int k"
  have x0: "x \<noteq> 0" using False by (simp add: x_def)
  have ax: "\<bar>x\<bar> = of_int \<bar>n\<bar> * 2 powr of_int k" by (simp add: x_def abs_mult)
  have "real_of_int \<bar>n\<bar> < real_of_int (2 ^ 53)"
    using assms(1) by (simp only: of_int_less_iff)
  then have "real_of_int \<bar>n\<bar> < 2 powr 53"
    by simp
  then have "\<bar>x\<bar> < 2 powr 53 * 2 powr of_int k"
    unfolding ax by (rule mult_strict_right_mono) simp
  also have "\<dots> = 2 powr (53 + of_int k)"
    by (rule powr_add [symmetric])
  also have "53 + real_of_int k = of_int (k + 53)"
    by simp
  finally have lt: "\<bar>x\<bar> < 2 powr of_int (k + 53)" .
  have "0 < \<bar>x\<bar>" using x0 by simp
  then have "log 2 \<bar>x\<bar> < of_int (k + 53)"
    using lt by (subst log_less_iff) simp_all
  then have "\<lfloor>log 2 \<bar>x\<bar>\<rfloor> < k + 53"
    by (simp add: floor_less_iff)
  then have e: "exponent x \<le> k + 52"
    using assms(2) by (simp add: exponent_def)
  define j where "j = nat (k + 52 - exponent x)"
  have j: "real j = of_int (k + 52 - exponent x)"
    using e by (simp add: j_def)
  have "(2::real) ^ j = 2 powr real j"
    by (rule powr_realpow [symmetric]) simp
  then have "2 ^ j * ulp x = 2 powr real j * 2 powr of_int (exponent x - 52)"
    by (simp only: ulp_def)
  also have "\<dots> = 2 powr (real j + of_int (exponent x - 52))"
    by (rule powr_add [symmetric])
  also have "real j + of_int (exponent x - 52) = of_int k"
    unfolding j by simp
  finally have p: "2 powr of_int k = 2 ^ j * ulp x" by (rule sym)
  have xeq: "x = of_int n * (2 ^ j * ulp x)"
    using x_def by (simp only: p)
  have "x / ulp x = (of_int n * (2 ^ j * ulp x)) / ulp x"
    by (rule arg_cong [where f = "\<lambda>t. t / ulp x", OF xeq])
  also have "\<dots> = of_int (n * 2 ^ j)"
    by simp
  finally have "rnd x = of_int (n * 2 ^ j) * ulp x"
    unfolding rnd_def by (simp only: rhe_of_int)
  also have "\<dots> = of_int n * (2 ^ j * ulp x)"
    by simp
  also have "\<dots> = x"
    by (rule xeq [symmetric])
  finally show ?thesis unfolding x_def .
qed

lemma rnd_dyadic_le:
  assumes "\<bar>n\<bar> \<le> 2 ^ 53" and "- 1074 \<le> k"
  shows "rnd (of_int n * 2 powr of_int k) = of_int n * 2 powr of_int k"
proof (cases "\<bar>n\<bar> < 2 ^ 53")
  case True
  then show ?thesis using assms(2) by (rule rnd_dyadic)
next
  case False
  with assms(1) have "n = 2 ^ 53 \<or> n = - (2 ^ 53)" by linarith
  moreover have "(2 ^ 53 :: real) * 2 powr of_int k = of_int 1 * 2 powr of_int (k + 53)"
    by (simp add: powr_add)
  moreover have "rnd (of_int 1 * 2 powr of_int (k + 53)) = of_int 1 * 2 powr of_int (k + 53)"
    using assms(2) by (intro rnd_dyadic) simp_all
  ultimately show ?thesis
    by (auto simp: rnd_minus simp del: of_int_1)
qed

lemma rnd_idem: "rnd (rnd x) = rnd x"
proof (cases "x = 0")
  case True
  then show ?thesis by simp
next
  case False
  let ?N = "round_half_even (x / ulp x)"
  have "\<bar>x\<bar> / ulp x < 2 ^ 53"
    using abs_less_ulp [OF False] by (simp add: divide_less_eq)
  then have b: "x / ulp x \<le> of_int (2 ^ 53)" "of_int (- (2 ^ 53)) \<le> x / ulp x"
    by (simp_all add: abs_if divide_simps split: if_splits)
  have "?N \<le> 2 ^ 53" "- (2 ^ 53) \<le> ?N"
    using rhe_le [OF b(1)] rhe_ge [OF b(2)] by simp_all
  then have N: "\<bar>?N\<bar> \<le> 2 ^ 53" by linarith
  have k: "- 1074 \<le> exponent x - 52"
    using exponent_ge [of x] by linarith
  have "rnd x = of_int ?N * 2 powr of_int (exponent x - 52)"
    by (simp add: rnd_def ulp_def)
  with rnd_dyadic_le [OF N k] show ?thesis by simp
qed

lemma rnd_underflow:
  assumes "\<bar>x\<bar> \<le> 2 powr (- 1075)"
  shows "rnd x = 0"
proof -
  have pos: "0 \<le> y \<Longrightarrow> y \<le> 2 powr (- 1075) \<Longrightarrow> rnd y = 0" for y :: real
  proof (cases "y = 0")
    case True
    then show ?thesis by simp
  next
    case False
    assume a: "0 \<le> y" "y \<le> 2 powr (- 1075)"
    have "(2::real) powr (- 1075) < 2 powr (- 1022)"
      by (rule powr_less_mono) simp_all
    with a have "\<bar>y\<bar> < 2 powr (- 1022)" by linarith
    then have "exponent y = - 1022"
      using False by (rule exponent_subnormal)
    then have u: "ulp y = 2 powr (- 1074)"
      by (simp add: ulp_def)
    have "(2::real) powr (- 1074) = 2 powr (- 1075 + 1)"
      by simp
    also have "\<dots> = 2 powr (- 1075) * 2 powr 1"
      by (rule powr_add)
    finally have "(2::real) powr (- 1074) = 2 powr (- 1075) * 2"
      by simp
    then have "y / ulp y \<le> 1 / 2"
      unfolding u using a(2) by (simp add: divide_le_eq)
    moreover have "0 \<le> y / ulp y"
      using a(1) by (intro divide_nonneg_nonneg) simp_all
    ultimately have "round_half_even (y / ulp y) = 0"
      by (intro rhe_half)
    then show ?thesis by (simp add: rnd_def)
  qed
  show ?thesis
  proof (cases "0 \<le> x")
    case True
    with assms show ?thesis by (intro pos) simp_all
  next
    case False
    with assms have "rnd (- x) = 0" by (intro pos) simp_all
    then show ?thesis by (simp add: rnd_minus)
  qed
qed

lemma rnd_absorb:
  assumes "exponent x = e"
      and "\<bar>x - of_int n * 2 powr of_int (e - 52)\<bar> < 2 powr of_int (e - 52) / 2"
  shows "rnd x = of_int n * 2 powr of_int (e - 52)"
proof -
  have u: "ulp x = 2 powr of_int (e - 52)"
    by (simp add: ulp_def assms(1))
  have "\<bar>x - of_int n * ulp x\<bar> / ulp x < 1 / 2"
    using assms(2) unfolding u by (simp add: divide_less_eq)
  also have "\<bar>x - of_int n * ulp x\<bar> / ulp x = \<bar>(x - of_int n * ulp x) / ulp x\<bar>"
    by (simp add: abs_divide)
  also have "(x - of_int n * ulp x) / ulp x = x / ulp x - of_int n"
    by (simp add: diff_divide_distrib)
  finally have "round_half_even (x / ulp x) = n"
    by (rule rhe_near)
  then show ?thesis
    by (simp add: rnd_def u)
qed

lemma is_double_rnd: "\<bar>rnd x\<bar> < 2 ^ 1024 \<Longrightarrow> is_double (rnd x)"
  by (simp add: is_double_def rnd_idem)

lemma is_double_zero [simp]: "is_double 0"
  by (simp add: is_double_def)

lemma is_double_minus [simp]: "is_double (- x) = is_double x"
  by (auto simp: is_double_def rnd_minus)

lemma is_double_dyadic:
  assumes "\<bar>n\<bar> < 2 ^ 53" and "- 1074 \<le> k" and "k \<le> 970"
  shows "is_double (of_int n * 2 powr of_int k)"
proof -
  have "real_of_int \<bar>n\<bar> < real_of_int (2 ^ 53)"
    using assms(1) by (simp only: of_int_less_iff)
  then have "real_of_int \<bar>n\<bar> \<le> 2 ^ 53" by simp
  moreover have "(2::real) powr of_int k \<le> 2 powr 970"
    using assms(3) by (intro powr_mono) simp_all
  ultimately have "real_of_int \<bar>n\<bar> * 2 powr of_int k \<le> 2 ^ 53 * 2 powr 970"
    by (intro mult_mono) simp_all
  also have "\<dots> < 2 ^ 1024" by simp
  finally have "\<bar>of_int n * 2 powr of_int k\<bar> < (2::real) ^ 1024"
    by (simp add: abs_mult)
  with rnd_dyadic [OF assms(1,2)] show ?thesis
    by (simp add: is_double_def)
qed

lemma is_double_int:
  assumes "\<bar>n\<bar> < 2 ^ 53"
  shows "is_double (of_int n)"
  using is_double_dyadic [OF assms, of 0] by simp

lemma rnd_le:
  assumes "is_double d" and "x \<le> d"
  shows "rnd x \<le> d"
  using rnd_mono [OF assms(2)] assms(1) by (simp add: is_double_def)

lemma rnd_ge:
  assumes "is_double d" and "d \<le> x"
  shows "d \<le> rnd x"
  using rnd_mono [OF assms(2)] assms(1) by (simp add: is_double_def)

section \<open>Doubles and the results of operations\<close>

lemma is_double_numeral: "numeral n < (2::int) ^ 53 \<Longrightarrow> is_double (numeral n)"
  using is_double_int [of "numeral n"] by simp

lemma is_double_one [simp]: "is_double 1"
  using is_double_int [of 1] by simp

lemma is_double_frac:
  assumes "\<bar>n\<bar> < 2 ^ 53" and "k \<le> 1074"
  shows "is_double (of_int n / 2 ^ k)"
proof -
  have "(2::real) powr of_int (- int k) = inverse (2 powr real k)"
    by (simp add: powr_minus)
  also have "\<dots> = inverse (2 ^ k)"
    by (simp add: powr_realpow)
  finally have "of_int n * 2 powr of_int (- int k) = of_int n / (2::real) ^ k"
    by (simp add: divide_inverse)
  moreover have "is_double (of_int n * 2 powr of_int (- int k))"
    using assms by (intro is_double_dyadic) simp_all
  ultimately show ?thesis by simp
qed

lemma to_double_exact: "is_double d \<Longrightarrow> to_double d = Fin d"
  by (auto simp: to_double_def is_double_def)

lemma to_double_zero [simp]: "to_double 0 = Fin 0"
  by (simp add: to_double_def)

lemma to_double_range:
  assumes "is_double lo" and "is_double hi" and "0 < lo \<or> hi < 0" and "lo \<le> x" and "x \<le> hi"
  shows "\<exists>y. to_double x = Fin y \<and> lo \<le> y \<and> y \<le> hi \<and> is_double y"
proof -
  have a: "lo \<le> rnd x" using assms(1,4) by (rule rnd_ge)
  have b: "rnd x \<le> hi" using assms(2,5) by (rule rnd_le)
  have "\<bar>lo\<bar> < 2 ^ 1024" "\<bar>hi\<bar> < 2 ^ 1024"
    using assms(1,2) by (simp_all add: is_double_def)
  with a b have fin: "\<bar>rnd x\<bar> < 2 ^ 1024" by linarith
  have nz: "rnd x \<noteq> 0" using a b assms(3) by auto
  have "to_double x = Fin (rnd x)"
    using fin nz by (simp add: to_double_def)
  moreover have "is_double (rnd x)"
    using fin by (rule is_double_rnd)
  ultimately show ?thesis using a b by blast
qed

lemma to_double_nonneg:
  assumes "0 \<le> x"
  shows "to_double x = PInf \<or> (\<exists>y. to_double x = Fin y \<and> 0 \<le> y \<and> is_double y)"
proof (cases "2 ^ 1024 \<le> \<bar>rnd x\<bar>")
  case True
  have "0 \<le> rnd x" using assms by (rule rnd_nonneg)
  with True have "0 < x" using assms by (cases "x = 0") auto
  with True show ?thesis by (simp add: to_double_def)
next
  case False
  then have "is_double (rnd x)" by (intro is_double_rnd) simp
  moreover have "0 \<le> rnd x" using assms by (rule rnd_nonneg)
  ultimately show ?thesis using False assms by (auto simp: to_double_def)
qed

lemma to_double_nonpos:
  assumes "x < 0"
  shows "to_double x = NInf \<or> to_double x = NZero
         \<or> (\<exists>y. to_double x = Fin y \<and> y < 0 \<and> is_double y)"
proof (cases "2 ^ 1024 \<le> \<bar>rnd x\<bar>")
  case True
  with assms show ?thesis by (simp add: to_double_def)
next
  case False
  then have "is_double (rnd x)" by (intro is_double_rnd) simp
  moreover have "rnd x \<le> 0"
    using rnd_nonneg [of "- x"] assms by (simp add: rnd_minus)
  ultimately show ?thesis using False assms by (auto simp: to_double_def)
qed

lemma to_double_minus:
  assumes "x \<noteq> 0"
  shows "to_double (- x) = - to_double x"
  using assms by (auto simp: to_double_def rnd_minus uminus_npfloat_def)

lemma to_double_underflow:
  assumes "0 < x" and "x \<le> 2 powr (- 1075)"
  shows "to_double x = Fin 0"
proof -
  have "rnd x = 0" using assms by (intro rnd_underflow) simp
  then show ?thesis using assms(1) by (simp add: to_double_def)
qed

lemma to_double_near_one:
  assumes "1 - 2 powr (- 54) < x" and "x \<le> 1"
  shows "to_double x = Fin 1"
proof (cases "x = 1")
  case True
  then show ?thesis by (simp add: to_double_exact)
next
  case False
  with assms(2) have lt: "x < 1" by simp
  have "(2::real) powr (- 54) \<le> 2 powr (- 1)"
    by (rule powr_mono) simp_all
  then have h: "(2::real) powr (- 54) \<le> 1 / 2"
    by simp
  with assms(1) have ge: "1 / 2 \<le> x" by linarith
  have e: "exponent x = - 1"
    using ge lt by (intro exponent_eqI) simp_all
  have p: "(2::real) powr (- 54) = 2 powr of_int (- 1 - 52) / 2"
  proof -
    have "(2::real) powr (- 53) = 2 powr (- 54 + 1)" by simp
    also have "\<dots> = 2 powr (- 54) * 2 powr 1" by (rule powr_add)
    finally show ?thesis by simp
  qed
  have q: "real_of_int (2 ^ 53) * 2 powr of_int (- 1 - 52) = 1"
  proof -
    have "(2::real) powr 53 * 2 powr (- 53) = 2 powr (53 + - 53)"
      by (rule powr_add [symmetric])
    then show ?thesis by simp
  qed
  have "\<bar>x - real_of_int (2 ^ 53) * 2 powr of_int (- 1 - 52)\<bar> < 2 powr of_int (- 1 - 52) / 2"
    unfolding q p [symmetric] using assms(1) lt by simp
  from rnd_absorb [OF e this] have "rnd x = 1"
    unfolding q .
  then show ?thesis by (simp add: to_double_def)
qed

section \<open>Arithmetic on finite doubles\<close>

lemma fin_plus: "Fin a + Fin b = (if a + b = 0 then Fin 0 else to_double (a + b))"
  by (simp add: plus_npfloat_def np_add_def)

lemma fin_minus: "Fin a - Fin b = (if a - b = 0 then Fin 0 else to_double (a - b))"
  by (simp add: minus_npfloat_def np_add_def)

lemma fin_uminus: "- Fin a = (if a = 0 then NZero else Fin (- a))"
  by (simp add: uminus_npfloat_def)

lemma fin_times:
  "Fin a * Fin b = (if a * b = 0 then signed_zero ((a < 0) \<noteq> (b < 0)) else to_double (a * b))"
  by (simp add: times_npfloat_def np_multiply_def)

lemma fin_divide:
  "Fin a / Fin b =
     (if b = 0 then (if a = 0 then NaN else signed_inf (a < 0))
      else if a = 0 then signed_zero (b < 0)
      else to_double (a / b))"
  by (simp add: divide_npfloat_def np_true_divide_def)

lemma nan_arith [simp]:
  "NaN + x = NaN" "x + NaN = NaN" "NaN - x = NaN" "x - NaN = NaN"
  "NaN * x = NaN" "x * NaN = NaN" "NaN / x = NaN" "x / NaN = NaN" "- NaN = NaN"
  by (simp_all add: plus_npfloat_def minus_npfloat_def times_npfloat_def divide_npfloat_def
      uminus_npfloat_def np_add_def np_multiply_def np_true_divide_def)

lemma zero_plus_double: "is_double a \<Longrightarrow> Fin 0 + Fin a = Fin a"
  by (simp add: fin_plus to_double_exact)

section \<open>What the kernel weight can be\<close>

lemma self_quotient: "w / w = Fin 1 \<or> w / w = NaN" for w :: npfloat
  by (cases w) (simp_all add: fin_divide to_double_exact divide_npfloat_def np_true_divide_def)

lemma kernel_weights_shape_error:
  "length ms \<noteq> 1 \<Longrightarrow> length ms \<noteq> 2 \<Longrightarrow> kernel_weights ms ts k t bm bt = Inl ValueError"
  by (simp add: kernel_weights_def column_stack_def np_broadcast_def cdist_col_def)

lemma kernel_weights_scalar:
  assumes "length ms = length ts" and "length ms = 1 \<or> length ms = 2"
  shows "kernel_weights ms ts k t bm bt = Inr (Fin 1) \<or> kernel_weights ms ts k t bm bt = Inr NaN"
proof -
  obtain pairs where p: "np_broadcast (cdist_col (zip ms ts) (k, t)) [bm, bt] = Inr pairs"
    using assms by (auto simp: np_broadcast_def cdist_col_def)
  show ?thesis
    using assms(1) p self_quotient [of "np_exp (Fin (- 0.5) * np_sum (map (\<lambda>(d, b). d / b) pairs))"]
    by (auto simp: kernel_weights_def column_stack_def Let_def)
qed

lemma bandwidth_literal:
  obtains b where "to_double 0.0125 = Fin b" and "1 / 2 ^ 7 \<le> b" and "b \<le> 13 / 2 ^ 10"
proof -
  have lo: "is_double (1 / 2 ^ 7)" using is_double_frac [of 1 7] by simp
  have hi: "is_double (13 / 2 ^ 10)" using is_double_frac [of 13 10] by simp
  from to_double_range [OF lo hi, of "0.0125"] that show ?thesis by auto
qed

lemma threshold_literal:
  obtains c where "to_double 0.01 = Fin c" and "1 / 2 ^ 7 \<le> c" and "c \<le> 1 / 2 ^ 6"
proof -
  have lo: "is_double (1 / 2 ^ 7)" using is_double_frac [of 1 7] by simp
  have hi: "is_double (1 / 2 ^ 6)" using is_double_frac [of 1 6] by simp
  from to_double_range [OF lo hi, of "0.01"] that show ?thesis by auto
qed

lemma one_above_threshold: "np_greater (Fin 1) (to_double 0.01)"
proof -
  obtain c where "to_double 0.01 = Fin c" "c \<le> 1 / 2 ^ 6"
    by (rule threshold_literal)
  then show ?thesis by (simp add: np_greater_def)
qed

lemma nan_below_threshold: "\<not> np_greater NaN x"
  by (simp add: np_greater_def)

section \<open>Evaluations of the kernel weight\<close>

lemma sqrt_900: "sqrt 900 = 30"
  by (rule real_sqrt_unique) auto

lemma distance_zero:
  "np_sqrt ((Fin a - Fin a) * (Fin a - Fin a) + (Fin b - Fin b) * (Fin b - Fin b)) = Fin 0"
  by (simp add: fin_minus fin_times fin_plus signed_zero_def)

lemma zero_over_bandwidth: "Fin 0 / to_double 0.0125 = Fin 0"
proof -
  obtain b where "to_double 0.0125 = Fin b" "1 / 2 ^ 7 \<le> b"
    by (rule bandwidth_literal)
  then show ?thesis by (simp add: fin_divide signed_zero_def)
qed

lemma kernel_weights_at_target:
  "kernel_weights [Fin 1] [Fin 30] (Fin 1) (Fin 30) (to_double 0.0125) (Fin 10) = Inr (Fin 1)"
  using zero_over_bandwidth
  by (simp add: kernel_weights_def column_stack_def cdist_col_def np_broadcast_def np_sum_def Let_def
      distance_zero fin_divide fin_plus fin_times signed_zero_def to_double_exact)

lemma kernel_weights_two_at_target:
  "kernel_weights [Fin 1, Fin 1] [Fin 30, Fin 30] (Fin 1) (Fin 30) (to_double 0.0125) (Fin 10)
     = Inr (Fin 1)"
  using zero_over_bandwidth
  by (simp add: kernel_weights_def column_stack_def cdist_col_def np_broadcast_def np_sum_def Let_def
      distance_zero fin_divide fin_plus fin_times signed_zero_def to_double_exact)

lemma ln2_le_one: "ln (2::real) \<le> 1"
proof -
  have "2 \<le> exp (1::real)"
    using exp_ge_add_one_self [of "1::real"] by simp
  then have "ln 2 \<le> ln (exp (1::real))"
    by (subst ln_le_cancel_iff) simp_all
  then show ?thesis by simp
qed

lemma exp_le_pow2:
  fixes n c :: real
  assumes "0 \<le> n" and "n \<le> c"
  shows "exp (- c) \<le> 2 powr (- n)"
proof -
  have "n * ln 2 \<le> n * (1::real)"
    using ln2_le_one assms(1) by (rule mult_left_mono)
  with assms(2) have "- c \<le> - n * ln 2" by simp
  then have "exp (- c) \<le> exp (- n * ln 2)" by simp
  also have "exp (- n * ln 2) = 2 powr (- n)"
    by (simp add: powr_def mult.commute)
  finally show ?thesis .
qed

lemma np_exp_underflow:
  assumes "t \<le> - 1075"
  shows "np_exp (Fin t) = Fin 0"
proof -
  have "exp (- (- t)) \<le> 2 powr (- 1075)"
    using assms by (intro exp_le_pow2) simp_all
  then show ?thesis
    by (simp add: to_double_underflow)
qed

lemma kernel_weights_far:
  "kernel_weights [Fin 1] [Fin 60] (Fin 1) (Fin 30) (to_double 0.0125) (Fin 10) = Inr NaN"
proof -
  obtain b where b: "to_double 0.0125 = Fin b" "1 / 2 ^ 7 \<le> b" "b \<le> 13 / 2 ^ 10"
    by (rule bandwidth_literal)
  have bpos: "0 < b" using b(2) by simp
  have dist: "np_sqrt ((Fin 1 - Fin 1) * (Fin 1 - Fin 1) + (Fin 60 - Fin 30) * (Fin 60 - Fin 30)) = Fin 30"
    by (simp add: fin_minus fin_times fin_plus signed_zero_def to_double_exact is_double_numeral sqrt_900)
  obtain q where q: "Fin 30 / Fin b = Fin q" "2363 \<le> q" "q \<le> 3840" "is_double q"
  proof -
    have "Fin 30 / Fin b = to_double (30 / b)"
      using bpos by (simp add: fin_divide)
    moreover have "2363 \<le> 30 / b" "30 / b \<le> 3840"
      using b bpos by (simp_all add: field_simps)
    ultimately show ?thesis
      using to_double_range [of 2363 3840 "30 / b"] that by (auto simp: is_double_numeral)
  qed
  have three: "Fin 30 / Fin 10 = Fin 3"
    by (simp add: fin_divide to_double_exact is_double_numeral)
  obtain s where s: "Fin 0 + Fin q + Fin 3 = Fin s" "2366 \<le> s" "s \<le> 3843"
  proof -
    have "Fin 0 + Fin q = Fin q"
      using q(4) by (rule zero_plus_double)
    moreover have "Fin q + Fin 3 = to_double (q + 3)"
      using q(2) by (simp add: fin_plus)
    moreover have "2366 \<le> q + 3" "q + 3 \<le> 3843"
      using q by simp_all
    ultimately show ?thesis
      using to_double_range [of 2366 3843 "q + 3"] that by (auto simp: is_double_numeral)
  qed
  obtain t where t: "Fin (- 0.5) * Fin s = Fin t" "t \<le> - 1183"
  proof -
    have "Fin (- 0.5) * Fin s = to_double (- 0.5 * s)"
      using s(2) by (simp add: fin_times)
    moreover have "- 1922 \<le> - 0.5 * s" "- 0.5 * s \<le> - 1183"
      using s by simp_all
    ultimately show ?thesis
      using to_double_range [of "- 1922" "- 1183" "- 0.5 * s"] that by (auto simp: is_double_numeral)
  qed
  have e: "np_exp (Fin t) = Fin 0"
    using t(2) by (intro np_exp_underflow) simp
  have w: "np_exp (Fin (- 0.5) * (Fin 0 + Fin 30 / to_double 0.0125 + Fin 30 / Fin 10)) = Fin 0"
    unfolding b(1) q(1) three s(1) t(1) by (rule e)
  show ?thesis
    using dist w
    by (simp add: kernel_weights_def column_stack_def cdist_col_def np_broadcast_def np_sum_def Let_def
        fin_divide del: np_exp.simps)
qed

section \<open>The rows a bucket keeps\<close>

lemma is_double_half [simp]: "is_double (1 / 2)"
  using is_double_frac [of 1 1] by simp

lemma is_double_two [simp]: "is_double 2"
  using is_double_int [of 2] by simp

lemma weighted_subset_error:
  assumes "length (filter (\<lambda>q. option_type q = opt) data) \<noteq> 1"
      and "length (filter (\<lambda>q. option_type q = opt) data) \<noteq> 2"
  shows "weighted_subset data k t opt = Inl ValueError"
  using assms by (simp add: weighted_subset_def kernel_weights_shape_error)

lemma weighted_subset_nan:
  assumes "kernel_weights (map moneyness (filter (\<lambda>q. option_type q = opt) data))
             (map ttm (filter (\<lambda>q. option_type q = opt) data)) k t (to_double 0.0125) (Fin 10) = Inr NaN"
  shows "weighted_subset data k t opt = Inr []"
  using assms by (simp add: weighted_subset_def nan_below_threshold)

lemma weighted_subset_single:
  assumes "filter (\<lambda>q. option_type q = opt) data = [q]"
      and "kernel_weights [moneyness q] [ttm q] k t (to_double 0.0125) (Fin 10) = Inr (Fin 1)"
  shows "weighted_subset data k t opt = Inr [(q, Fin 1)]"
  using assms one_above_threshold
  by (simp add: weighted_subset_def pd_sum_def np_sum_def fin_plus fin_divide to_double_exact)


lemma weighted_subset_far:
  "weighted_subset [example_quote ''call'' 60 0.2] (Fin 1) (Fin 30) ''call'' = Inr []"
  using kernel_weights_far by (intro weighted_subset_nan) (simp add: example_quote_def)

lemma weighted_subset_near:
  "weighted_subset [example_quote ''call'' 30 0.2] (Fin 1) (Fin 30) ''call''
     = Inr [(example_quote ''call'' 30 0.2, Fin 1)]"
  using kernel_weights_at_target
  by (intro weighted_subset_single) (simp_all add: example_quote_def)

section \<open>The return of a bucket and the panel\<close>

lemma py_map_map: "py_map f (map g xs) = py_map (\<lambda>x. f (g x)) xs"
  by (induction xs) (simp_all split: sum.splits)

lemma py_map_cong: "(\<And>x. x \<in> set xs \<Longrightarrow> f x = g x) \<Longrightarrow> py_map f xs = py_map g xs"
  by (induction xs) (simp_all split: sum.splits)

lemma py_map_Inr:
  "py_map f xs = Inr ys \<Longrightarrow> length ys = length xs \<and> (\<forall>i < length xs. f (xs ! i) = Inr (ys ! i))"
proof (induction xs arbitrary: ys)
  case Nil
  then show ?case by simp
next
  case (Cons x xs)
  from Cons.prems obtain y ys' where y: "f x = Inr y" and ys': "py_map f xs = Inr ys'" and eq: "ys = y # ys'"
    by (auto split: sum.splits)
  from Cons.IH [OF ys'] y eq show ?case
    by (auto simp: nth_Cons split: nat.splits)
qed


lemma construct_portfolio_empty:
  "weighted_subset data k t opt = Inr [] \<Longrightarrow> construct_portfolio data k t opt r = Inr (Fin 0)"
  by (simp add: construct_portfolio_def pd_sum_def np_sum_def)

text \<open>
  Claim C5, as the code has it. A bucket on which no member survives is not left
  out: \<open>construct_portfolio\<close> returns \<open>0.0\<close>, the sum over no row, and
  \<open>build_portfolios\<close> appends the record of the bucket with that return, as it does for
  every triple of the grid.
\<close>

theorem empty_bucket_is_recorded_as_zero:
  assumes "build_portfolios data m_grid ttm_grid opts = Inr panel"
      and "(opt, k, t) \<in> set (grid_triples m_grid ttm_grid opts)"
      and "weighted_subset data k t opt = Inr []"
  shows "construct_portfolio data k t opt (to_double 0.01) = Inr (Fin 0)
         \<and> \<lparr>p_type = opt, p_moneyness = k, p_ttm = t, p_return = Fin 0\<rparr> \<in> set panel"
proof -
  have cp: "construct_portfolio data k t opt (to_double 0.01) = Inr (Fin 0)"
    using assms(3) by (rule construct_portfolio_empty)
  let ?f = "\<lambda>(opt_type, k_s, t).
               case construct_portfolio data k_s t opt_type (to_double 0.01) of
                 Inl e \<Rightarrow> Inl e
               | Inr ret \<Rightarrow>
                   Inr \<lparr>p_type = opt_type, p_moneyness = k_s, p_ttm = t, p_return = ret\<rparr>"
  from assms(2) obtain i where i: "i < length (grid_triples m_grid ttm_grid opts)"
      and at: "grid_triples m_grid ttm_grid opts ! i = (opt, k, t)"
    by (auto simp: in_set_conv_nth)
  from py_map_Inr [OF assms(1) [unfolded build_portfolios_def]] i at
  have len: "length panel = length (grid_triples m_grid ttm_grid opts)"
    and "?f (opt, k, t) = Inr (panel ! i)"
    by (auto simp del: split_paired_All)
  then have "panel ! i = \<lparr>p_type = opt, p_moneyness = k, p_ttm = t, p_return = Fin 0\<rparr>"
    using cp by simp
  then show ?thesis
    using cp i len by (metis nth_mem)
qed

lemma build_portfolios_far:
  "build_portfolios [example_quote ''call'' 60 0.2] [Fin 1] [Fin 30] [''call'']
       = Inr [\<lparr>p_type = ''call'', p_moneyness = Fin 1, p_ttm = Fin 30, p_return = Fin 0\<rparr>]"
  using construct_portfolio_empty [OF weighted_subset_far]
  by (simp add: build_portfolios_def grid_triples_def)

text \<open>
  Claim C5 fails: one call quote, 60 days from maturity, and the bucket of calls at
  moneyness \<open>1\<close> and 30 days. The distance is \<open>30\<close>, the exponent
  \<open>-0.5 * (30 / 0.0125 + 30 / 10) = -1201.5\<close>, \<^verbatim>\<open>np.exp\<close> underflows to \<open>0.0\<close> and the
  weight \<open>0.0 / 0.0\<close> is \<open>nan\<close>: the row is dropped, no member survives, and the panel
  holds the bucket with the return \<open>0.0\<close>.
\<close>

theorem empty_bucket_gets_zero_return_counterexample:
  "weighted_subset [example_quote ''call'' 60 0.2] (Fin 1) (Fin 30) ''call'' = Inr []
   \<and> build_portfolios [example_quote ''call'' 60 0.2] [Fin 1] [Fin 30] [''call'']
       = Inr [\<lparr>p_type = ''call'', p_moneyness = Fin 1, p_ttm = Fin 30, p_return = Fin 0\<rparr>]"
  using weighted_subset_far build_portfolios_far by (rule conjI)

theorem empty_bucket_is_recorded_as_zero_witness:
  "build_portfolios [example_quote ''call'' 60 0.2] [Fin 1] [Fin 30] [''call'']
       = Inr [\<lparr>p_type = ''call'', p_moneyness = Fin 1, p_ttm = Fin 30, p_return = Fin 0\<rparr>]
   \<and> (''call'', Fin 1, Fin 30) \<in> set (grid_triples [Fin 1] [Fin 30] [''call''])
   \<and> weighted_subset [example_quote ''call'' 60 0.2] (Fin 1) (Fin 30) ''call'' = Inr []
   \<and> construct_portfolio [example_quote ''call'' 60 0.2] (Fin 1) (Fin 30) ''call'' (to_double 0.01)
        = Inr (Fin 0)
   \<and> \<lparr>p_type = ''call'', p_moneyness = Fin 1, p_ttm = Fin 30, p_return = Fin 0\<rparr>
        \<in> set [\<lparr>p_type = ''call'', p_moneyness = Fin 1, p_ttm = Fin 30, p_return = Fin 0\<rparr>]"
proof -
  have g: "(''call'', Fin 1, Fin 30) \<in> set (grid_triples [Fin 1] [Fin 30] [''call''])"
    by (simp add: grid_triples_def)
  from empty_bucket_is_recorded_as_zero [OF build_portfolios_far g weighted_subset_far]
    build_portfolios_far g weighted_subset_far
  show ?thesis by (intro conjI) simp_all
qed

text \<open>
  Claim C8 at a failing input: with three call quotes in the table the first bucket
  of calls raises \<^verbatim>\<open>ValueError\<close> in \<open>kernel_weights\<close>, and \<open>build_portfolios\<close> returns no
  record at all.
\<close>

theorem build_portfolios_three_calls:
  "build_portfolios [example_quote ''call'' 30 0.2, example_quote ''call'' 60 0.2, example_quote ''call'' 90 0.2]
     [Fin 1] [Fin 30] [''call''] = Inl ValueError"
  by (simp add: build_portfolios_def grid_triples_def construct_portfolio_def example_quote_def
      weighted_subset_error)

text \<open>
  Claim C2 at two failing inputs: on three quotes \<open>kernel_weights\<close> raises
  \<^verbatim>\<open>ValueError\<close> (three distances against two bandwidths), and on two quotes it
  returns the single number \<open>1.0\<close>, not one weight for each quote.
\<close>

theorem kernel_weights_is_scalar_or_error:
  "kernel_weights [Fin 1, Fin 1, Fin 1] [Fin 30, Fin 60, Fin 90] (Fin 1) (Fin 30) (to_double 0.0125) (Fin 10)
     = Inl ValueError
   \<and> kernel_weights [Fin 1, Fin 1] [Fin 30, Fin 30] (Fin 1) (Fin 30) (to_double 0.0125) (Fin 10)
     = Inr (Fin 1)"
  using kernel_weights_two_at_target by (simp add: kernel_weights_shape_error)

text \<open>
  Claim C3 at a failing input: three call quotes, each exactly at the target of the
  bucket, so that each has a third of the weight. \<open>construct_portfolio\<close> keeps no
  member and renormalises no weight: it raises \<^verbatim>\<open>ValueError\<close> in \<open>kernel_weights\<close>
  before the threshold is applied, as it does on every bucket that has not one or
  two quotes of its option type.
\<close>

theorem three_members_at_the_target:
  "weighted_subset
     [example_quote ''call'' 30 0.2, example_quote ''call'' 30 0.2, example_quote ''call'' 30 0.2]
     (Fin 1) (Fin 30) ''call'' = Inl ValueError
   \<and> construct_portfolio
     [example_quote ''call'' 30 0.2, example_quote ''call'' 30 0.2, example_quote ''call'' 30 0.2]
     (Fin 1) (Fin 30) ''call'' (to_double 0.01) = Inl ValueError"
  by (simp add: construct_portfolio_def example_quote_def weighted_subset_error)

section \<open>Columns the portfolio does not read\<close>

lemma erase_rate_fields [simp]:
  "option_type (erase_rate q) = option_type q" "moneyness (erase_rate q) = moneyness q"
  "ttm (erase_rate q) = ttm q" "underlying (erase_rate q) = underlying q"
  "strike (erase_rate q) = strike q" "iv (erase_rate q) = iv q"
  "daily_return (erase_rate q) = daily_return q"
  by (simp_all add: erase_rate_def)

text \<open>
  The rows that are kept and their weights depend on three columns only: the option
  type, the moneyness and the days to maturity.
\<close>

lemma weighted_subset_map:
  assumes "\<And>q. option_type (f q) = option_type q"
      and "\<And>q. moneyness (f q) = moneyness q"
      and "\<And>q. ttm (f q) = ttm q"
  shows "weighted_subset (map f data) k t opt =
     (case weighted_subset data k t opt of
        Inl e \<Rightarrow> Inl e
      | Inr rows \<Rightarrow> Inr (map (\<lambda>(q, w). (f q, w)) rows))"
proof -
  let ?sub = "filter (\<lambda>q. option_type q = opt) data"
  have sub: "filter (\<lambda>q. option_type q = opt) (map f data) = map f ?sub"
    by (simp add: filter_map o_def assms(1))
  have cols: "map moneyness (map f ?sub) = map moneyness ?sub"
    "map ttm (map f ?sub) = map ttm ?sub"
    by (simp_all add: assms)
  have step: "map (\<lambda>(q, w). (q, w / tot)) (filter (\<lambda>(q, w). np_greater w c) (map (\<lambda>q. (q, x)) (map f rows)))
     = map (\<lambda>(q, w). (f q, w)) (map (\<lambda>(q, w). (q, w / tot)) (filter (\<lambda>(q, w). np_greater w c) (map (\<lambda>q. (q, x)) rows)))"
    for rows :: "quote list" and x c tot
    by (induction rows) simp_all
  have tot: "map snd (filter (\<lambda>(q, w). np_greater w c) (map (\<lambda>q. (q, x)) (map f rows)))
     = map snd (filter (\<lambda>(q, w). np_greater w c) (map (\<lambda>q. (q, x)) rows))"
    for rows :: "quote list" and x c
    by (induction rows) simp_all
  show ?thesis
    unfolding weighted_subset_def Let_def sub cols tot step
    by (simp split: sum.splits)
qed

lemma leverage_return_erase_rate: "leverage_return (erase_rate q) r opt = leverage_return q r opt"
  by (simp add: leverage_return_def split: sum.splits list.splits)

lemma construct_portfolio_erase_rate:
  "construct_portfolio (map erase_rate data) k t opt r = construct_portfolio data k t opt r"
proof (cases "weighted_subset data k t opt")
  case (Inl e)
  then show ?thesis
    by (simp add: construct_portfolio_def weighted_subset_map)
next
  case (Inr rows)
  have ws: "weighted_subset (map erase_rate data) k t opt = Inr (map (\<lambda>(q, w). (erase_rate q, w)) rows)"
    using Inr by (simp add: weighted_subset_map)
  have pm: "py_map (\<lambda>(q, w). leverage_return q r opt) (map (\<lambda>(q, w). (erase_rate q, w)) rows)
      = py_map (\<lambda>(q, w). leverage_return q r opt) rows"
    unfolding py_map_map by (rule py_map_cong) (auto simp: leverage_return_erase_rate)
  have z: "map (\<lambda>(l, (q, w)). l * w) (zip lev (map (\<lambda>(q, w). (erase_rate q, w)) rows))
      = map (\<lambda>(l, (q, w)). l * w) (zip lev rows)" for lev :: "npfloat list"
  proof (induction rows arbitrary: lev)
    case Nil
    then show ?case by simp
  next
    case (Cons x xs)
    then show ?case by (cases lev; cases x) auto
  qed
  show ?thesis
    using pm by (simp add: construct_portfolio_def ws Inr z split: sum.splits)
qed

text \<open>
  Claim C10. Two quote tables that differ only in the implied rate of their rows
  give the same \<open>construct_portfolio\<close>, for every bucket and every rate \<open>r\<close>, and the
  same panel: the rate of the Black-Scholes computation is the one scalar \<open>r\<close>
  (\<open>0.01\<close> when \<open>build_portfolios\<close> calls), the same for every row.
\<close>

theorem implied_rate_is_not_read:
  assumes "map erase_rate data = map erase_rate data'"
  shows "construct_portfolio data k_s_target ttm_target opt r
           = construct_portfolio data' k_s_target ttm_target opt r
         \<and> build_portfolios data m_grid ttm_grid opts = build_portfolios data' m_grid ttm_grid opts"
proof -
  note eq = assms
  have cp: "construct_portfolio data k t opt r = construct_portfolio data' k t opt r" for k t opt r
    using construct_portfolio_erase_rate [of data k t opt r]
      construct_portfolio_erase_rate [of data' k t opt r] eq by simp
  show ?thesis
    by (simp add: cp build_portfolios_def)
qed

theorem implied_rate_is_not_read_witness:
  "map erase_rate [example_quote ''call'' 30 0.2]
     = map erase_rate [(example_quote ''call'' 30 0.2)\<lparr>implied_rate := Fin 0.05\<rparr>]
   \<and> [example_quote ''call'' 30 0.2] \<noteq> [(example_quote ''call'' 30 0.2)\<lparr>implied_rate := Fin 0.05\<rparr>]
   \<and> construct_portfolio [example_quote ''call'' 30 0.2] (Fin 1) (Fin 30) ''call'' (to_double 0.01)
       = construct_portfolio [(example_quote ''call'' 30 0.2)\<lparr>implied_rate := Fin 0.05\<rparr>]
           (Fin 1) (Fin 30) ''call'' (to_double 0.01)
   \<and> build_portfolios [example_quote ''call'' 30 0.2] [Fin 1] [Fin 30] [''call'']
       = build_portfolios [(example_quote ''call'' 30 0.2)\<lparr>implied_rate := Fin 0.05\<rparr>]
           [Fin 1] [Fin 30] [''call'']"
proof -
  have e: "map erase_rate [example_quote ''call'' 30 0.2]
     = map erase_rate [(example_quote ''call'' 30 0.2)\<lparr>implied_rate := Fin 0.05\<rparr>]"
    by (simp add: erase_rate_def example_quote_def)
  obtain y where "to_double 0.02 = Fin y" "y \<le> 1 / 2 ^ 5"
  proof -
    have lo: "is_double (1 / 2 ^ 6)" using is_double_frac [of 1 6] by simp
    have hi: "is_double (1 / 2 ^ 5)" using is_double_frac [of 1 5] by simp
    from to_double_range [OF lo hi, of "0.02"] that show ?thesis by auto
  qed
  then have d: "[example_quote ''call'' 30 0.2] \<noteq> [(example_quote ''call'' 30 0.2)\<lparr>implied_rate := Fin 0.05\<rparr>]"
    by (simp add: example_quote_def)
  from implied_rate_is_not_read [of "[example_quote ''call'' 30 0.2]"
      "[(example_quote ''call'' 30 0.2)\<lparr>implied_rate := Fin 0.05\<rparr>]"
      "Fin 1" "Fin 30" "''call''" "to_double 0.01" "[Fin 1]" "[Fin 30]" "[''call'']"] e d
  show ?thesis by simp
qed

section \<open>Properties of the normal distribution function\<close>

lemma gauss_coeff_odd: "gauss_coeff (Suc (2 * m)) = (- 1 / 2) ^ m / (fact m * real (Suc (2 * m)))"
  by (simp add: gauss_coeff_def)

lemma gauss_coeff_even: "even n \<Longrightarrow> gauss_coeff n = 0"
  by (simp add: gauss_coeff_def)

lemma gauss_term_bound:
  "\<bar>gauss_coeff (Suc (2 * m)) * y ^ Suc (2 * m)\<bar> \<le> \<bar>y\<bar> * ((y\<^sup>2 / 2) ^ m / fact m)"
proof -
  have pw: "\<bar>y ^ (2 * m)\<bar> = (y\<^sup>2) ^ m"
    by (simp add: power_mult)
  have a: "\<bar>(- 1 / 2 :: real) ^ m\<bar> = (1 / 2) ^ m"
    by (simp add: power_abs)
  have "\<bar>gauss_coeff (Suc (2 * m)) * y ^ Suc (2 * m)\<bar>
      = (1 / 2) ^ m / (fact m * real (Suc (2 * m))) * (\<bar>y\<bar> * (y\<^sup>2) ^ m)"
    unfolding gauss_coeff_odd abs_mult abs_divide a power_Suc pw by simp
  also have "\<dots> = (\<bar>y\<bar> * ((y\<^sup>2 / 2) ^ m / fact m)) / real (Suc (2 * m))"
    by (simp add: power_divide)
  also have "\<dots> \<le> (\<bar>y\<bar> * ((y\<^sup>2 / 2) ^ m / fact m)) / 1"
    by (rule divide_left_mono) simp_all
  finally show ?thesis by simp
qed

lemma exp_series_real: "(\<lambda>m. (z::real) ^ m / fact m) sums exp z"
proof -
  have "(\<lambda>m. z ^ m /\<^sub>R fact m) sums exp z"
    by (rule exp_converges)
  moreover have "z ^ m /\<^sub>R fact m = z ^ m / fact m" for m
    by (simp only: real_scaleR_def divide_inverse mult.commute)
  ultimately show ?thesis by simp
qed

lemma gauss_coeff_summable: "summable (\<lambda>n. gauss_coeff n * y ^ n)"
proof -
  define h where "h m = \<bar>y\<bar> * ((y\<^sup>2 / 2) ^ m / fact m)" for m
  have "(\<lambda>m. (y\<^sup>2 / 2) ^ m / fact m) sums exp (y\<^sup>2 / 2)"
    by (rule exp_series_real)
  then have "h sums (\<bar>y\<bar> * exp (y\<^sup>2 / 2))"
    unfolding h_def by (rule sums_mult)
  then have "(\<lambda>n. if even n then 0 else h ((n - 1) div 2)) sums (\<bar>y\<bar> * exp (y\<^sup>2 / 2))"
    by (rule sums_if')
  then have g: "summable (\<lambda>n. if even n then 0 else h ((n - 1) div 2))"
    by (rule sums_summable)
  have bound: "norm (gauss_coeff n * y ^ n) \<le> (if even n then 0 else h ((n - 1) div 2))" for n
  proof (cases "even n")
    case True
    then show ?thesis by (simp add: gauss_coeff_even)
  next
    case False
    then obtain m where n: "n = Suc (2 * m)"
      by (auto elim: oddE)
    show ?thesis
      unfolding n h_def using gauss_term_bound [of m y] by simp
  qed
  show ?thesis
    by (rule summable_comparison_test [OF _ g]) (use bound in blast)
qed

lemma diffs_gauss_coeff:
  "diffs gauss_coeff n = (if even n then (- 1 / 2) ^ (n div 2) / fact (n div 2) else 0)"
  by (simp add: diffs_def gauss_coeff_def)

lemma gauss_power_split: "(- (x\<^sup>2) / 2) ^ m = (- 1 / 2) ^ m * (x::real) ^ (2 * m)"
proof -
  have "- (x\<^sup>2) / 2 = (- 1 / 2) * x\<^sup>2" by simp
  then have "(- (x\<^sup>2) / 2) ^ m = (- 1 / 2) ^ m * (x\<^sup>2) ^ m"
    by (simp only: power_mult_distrib)
  also have "(x\<^sup>2) ^ m = x ^ (2 * m)"
    by (simp only: power_mult)
  finally show ?thesis .
qed

lemma diffs_gauss_term:
  "diffs gauss_coeff n * x ^ n = (if even n then (- (x\<^sup>2) / 2) ^ (n div 2) / fact (n div 2) else 0)"
proof (cases "even n")
  case True
  then obtain m where n: "n = 2 * m" by (auto elim: evenE)
  show ?thesis
    unfolding diffs_gauss_coeff n gauss_power_split by simp
next
  case False
  then show ?thesis by (simp add: diffs_gauss_coeff)
qed

lemma diffs_gauss_sums: "(\<lambda>n. diffs gauss_coeff n * x ^ n) sums exp (- (x\<^sup>2) / 2)"
proof -
  have e: "(\<lambda>m. (- (x\<^sup>2) / 2) ^ m / fact m) sums exp (- (x\<^sup>2) / 2)"
    by (rule exp_series_real)
  have z: "(\<lambda>n::nat. 0::real) sums 0"
    by (rule sums_zero)
  have "(\<lambda>n. if even n then (- (x\<^sup>2) / 2) ^ (n div 2) / fact (n div 2) else 0) sums (0 + exp (- (x\<^sup>2) / 2))"
    by (rule sums_if [OF z e])
  then show ?thesis
    unfolding diffs_gauss_term by (simp only: add_0)
qed

lemma gauss_int_deriv: "(gauss_int has_real_derivative exp (- (x\<^sup>2) / 2)) (at x)"
proof -
  have "((\<lambda>x. \<Sum>n. gauss_coeff n * x ^ n) has_field_derivative (\<Sum>n. diffs gauss_coeff n * x ^ n)) (at x)"
    by (rule termdiffs_strong_converges_everywhere) (rule gauss_coeff_summable)
  moreover have "(\<Sum>n. diffs gauss_coeff n * x ^ n) = exp (- (x\<^sup>2) / 2)"
    using diffs_gauss_sums by (rule sums_unique [symmetric])
  ultimately show ?thesis
    by (simp add: gauss_int_def [abs_def])
qed

lemma gauss_int_zero: "gauss_int 0 = 0"
proof -
  have "gauss_coeff n * 0 ^ n = 0" for n
    by (cases "n = 0") (simp_all add: gauss_coeff_even)
  then have "(\<lambda>n. gauss_coeff n * 0 ^ n) = (\<lambda>n. 0)"
    by (intro ext)
  then show ?thesis
    unfolding gauss_int_def by (simp only: suminf_zero)
qed

lemma gauss_int_strict_mono: "x < y \<Longrightarrow> gauss_int x < gauss_int y"
  by (rule DERIV_pos_imp_increasing [of x y gauss_int]) (auto intro: gauss_int_deriv)

lemma gauss_int_odd: "gauss_int (- x) = - gauss_int x"
proof -
  have d: "((\<lambda>x. gauss_int x + gauss_int (- x)) has_real_derivative 0) (at x)" for x
  proof -
    have "((\<lambda>x. gauss_int (- x)) has_real_derivative exp (- ((- x)\<^sup>2) / 2) * (- 1)) (at x)"
      by (rule DERIV_chain2 [OF gauss_int_deriv]) (auto intro!: derivative_eq_intros)
    from DERIV_add [OF gauss_int_deriv this] show ?thesis by simp
  qed
  have "gauss_int x + gauss_int (- x) = gauss_int 0 + gauss_int (- 0)"
    by (rule DERIV_isconst_all) (use d in blast)
  then show ?thesis by (simp add: gauss_int_zero)
qed

text \<open>Upper bound: the integrand is below exp (1/2 - t).\<close>

lemma gauss_int_bound: "gauss_int x \<le> exp (1 / 2)"
proof (cases "0 \<le> x")
  case False
  then have "gauss_int x < gauss_int 0"
    by (intro gauss_int_strict_mono) simp
  moreover have "0 \<le> exp (1 / 2 :: real)" by simp
  ultimately show ?thesis
    unfolding gauss_int_zero by linarith
next
  case True
  define g where "g t = exp (1 / 2) * (1 - exp (- t)) - gauss_int t" for t :: real
  have dg: "(g has_real_derivative (exp (1 / 2) * exp (- t) - exp (- (t\<^sup>2) / 2))) (at t)" for t
    unfolding g_def [abs_def]
    by (auto intro!: derivative_eq_intros gauss_int_deriv)
  have nonneg: "0 \<le> exp (1 / 2) * exp (- t) - exp (- (t\<^sup>2) / 2)" for t :: real
  proof -
    have "0 \<le> (t - 1)\<^sup>2" by simp
    then have "- (t\<^sup>2) / 2 \<le> 1 / 2 + - t"
      by (simp add: power2_eq_square algebra_simps)
    then have "exp (- (t\<^sup>2) / 2) \<le> exp (1 / 2 + - t)"
      by (simp only: exp_le_cancel_iff)
    also have "exp (1 / 2 + - t) = exp (1 / 2) * exp (- t)"
      by (rule exp_add)
    finally show ?thesis by (simp only: diff_ge_0_iff_ge)
  qed
  have "g 0 \<le> g x"
    by (rule DERIV_nonneg_imp_nondecreasing [OF True]) (use dg nonneg in blast)
  then have "gauss_int x \<le> exp (1 / 2) * (1 - exp (- x))"
    by (simp add: g_def gauss_int_zero)
  also have "\<dots> \<le> exp (1 / 2) * 1"
    by (intro mult_left_mono) simp_all
  finally show ?thesis by simp
qed

lemma gauss_int_bdd: "bdd_above (range gauss_int)"
  by (rule bdd_aboveI [of _ "exp (1 / 2)"]) (auto intro: gauss_int_bound)

lemma gauss_int_less_sup: "gauss_int x < (SUP x. gauss_int x)"
proof -
  have "gauss_int x < gauss_int (x + 1)"
    by (rule gauss_int_strict_mono) simp
  also have "\<dots> \<le> (SUP x. gauss_int x)"
    by (rule cSUP_upper [OF _ gauss_int_bdd]) simp
  finally show ?thesis .
qed

lemma gauss_mass_pos: "0 < gauss_mass"
  using gauss_int_less_sup [of 0] by (simp add: gauss_mass_def gauss_int_zero)

lemma Phi_zero: "Phi 0 = 1 / 2"
  by (simp add: Phi_def gauss_int_zero)

lemma Phi_minus: "Phi (- x) = 1 - Phi x"
  by (simp add: Phi_def gauss_int_odd)

lemma Phi_less_one: "Phi x < 1"
proof -
  have "gauss_int x < gauss_mass / 2"
    using gauss_int_less_sup [of x] by (simp add: gauss_mass_def)
  then have "gauss_int x / gauss_mass < (gauss_mass / 2) / gauss_mass"
    using gauss_mass_pos by (rule divide_strict_right_mono)
  also have "(gauss_mass / 2) / gauss_mass = 1 / 2"
    using gauss_mass_pos by simp
  finally show ?thesis unfolding Phi_def by linarith
qed

lemma Phi_pos: "0 < Phi x"
  using Phi_less_one [of "- x"] by (simp add: Phi_minus)


lemma Phi_strict_mono: "x < y \<Longrightarrow> Phi x < Phi y"
  using gauss_int_strict_mono [of x y] gauss_mass_pos
  by (simp add: Phi_def divide_strict_right_mono)

text \<open>The tail of the integral (Mills' ratio).\<close>

lemma gauss_int_increment:
  assumes "0 < t" and "t \<le> y"
  shows "gauss_int y - gauss_int t \<le> (exp (- (t\<^sup>2) / 2) - exp (- (y\<^sup>2) / 2)) / t"
proof -
  define h where "h u = gauss_int u - gauss_int t - (exp (- (t\<^sup>2) / 2) - exp (- (u\<^sup>2) / 2)) / t"
    for u :: real
  have dh: "(h has_real_derivative (exp (- (u\<^sup>2) / 2) * (1 - u / t))) (at u)" for u
    unfolding h_def [abs_def] using assms(1)
    by (auto intro!: derivative_eq_intros gauss_int_deriv simp: field_simps)
  have "h y \<le> h t"
  proof (rule DERIV_nonpos_imp_nonincreasing [OF assms(2)])
    fix u assume "t \<le> u" "u \<le> y"
    then have "exp (- (u\<^sup>2) / 2) * (1 - u / t) \<le> 0"
      using assms(1) by (intro mult_nonneg_nonpos) (simp_all add: field_simps)
    with dh show "\<exists>d. (h has_real_derivative d) (at u) \<and> d \<le> 0" by blast
  qed
  then show ?thesis by (simp add: h_def)
qed

lemma gauss_tail_weak:
  assumes "0 < t"
  shows "(SUP x. gauss_int x) - gauss_int t \<le> exp (- (t\<^sup>2) / 2) / t"
proof -
  have "gauss_int y \<le> gauss_int t + exp (- (t\<^sup>2) / 2) / t" for y
  proof (cases "t \<le> y")
    case True
    have "0 \<le> exp (- (y\<^sup>2) / 2) / t" using assms by simp
    with gauss_int_increment [OF assms True] show ?thesis
      by (simp add: diff_divide_distrib)
  next
    case False
    then have "gauss_int y < gauss_int t"
      by (intro gauss_int_strict_mono) simp
    moreover have "0 \<le> exp (- (t\<^sup>2) / 2) / t" using assms by simp
    ultimately show ?thesis by linarith
  qed
  then have "(SUP x. gauss_int x) \<le> gauss_int t + exp (- (t\<^sup>2) / 2) / t"
    by (intro cSUP_least) simp_all
  then show ?thesis by linarith
qed

lemma gauss_tail:
  assumes "0 < t"
  shows "(SUP x. gauss_int x) - gauss_int t < exp (- (t\<^sup>2) / 2) / t"
proof -
  let ?e = "\<lambda>u::real. exp (- (u\<^sup>2) / 2)"
  have a: "(SUP x. gauss_int x) - gauss_int (t + 1) \<le> ?e (t + 1) / (t + 1)"
    using assms by (intro gauss_tail_weak) simp
  have b: "gauss_int (t + 1) - gauss_int t \<le> (?e t - ?e (t + 1)) / t"
    using assms by (intro gauss_int_increment) simp_all
  have "?e (t + 1) / (t + 1) < ?e (t + 1) / t"
    using assms by (intro divide_strict_left_mono) simp_all
  with a b show ?thesis
    by (simp add: diff_divide_distrib)
qed

lemma mills:
  assumes "x < 0"
  shows "0 < exp (- (x\<^sup>2) / 2) / gauss_mass + x * Phi x"
proof -
  let ?L = "SUP x. gauss_int x"
  have L: "0 < ?L" using gauss_mass_pos by (simp add: gauss_mass_def)
  have "?L - gauss_int (- x) < exp (- ((- x)\<^sup>2) / 2) / (- x)"
    using assms by (intro gauss_tail) simp
  then have "(- x) * (?L + gauss_int x) < exp (- (x\<^sup>2) / 2)"
    using assms by (simp add: gauss_int_odd field_simps)
  then have "0 < exp (- (x\<^sup>2) / 2) + x * (?L + gauss_int x)"
    by (simp add: algebra_simps)
  then have "0 < (exp (- (x\<^sup>2) / 2) + x * (?L + gauss_int x)) / (2 * ?L)"
    using L by simp
  also have "(exp (- (x\<^sup>2) / 2) + x * (?L + gauss_int x)) / (2 * ?L)
       = exp (- (x\<^sup>2) / 2) / gauss_mass + x * Phi x"
    using L by (simp add: Phi_def gauss_mass_def field_simps)
  finally show ?thesis .
qed







text \<open>The total mass is at least \<open>1\<close>, and the tails of the distribution function.\<close>

lemma gauss_int_one: "exp (- (1 / 2)) \<le> gauss_int 1"
proof -
  define h where "h t = gauss_int t - exp (- (1 / 2)) * t" for t :: real
  have dh: "(h has_real_derivative (exp (- (t\<^sup>2) / 2) - exp (- (1 / 2)))) (at t)" for t
    unfolding h_def [abs_def] by (auto intro!: derivative_eq_intros gauss_int_deriv)
  have nonneg: "0 \<le> exp (- (t\<^sup>2) / 2) - exp (- (1 / 2))" if "0 \<le> t" "t \<le> 1" for t :: real
  proof -
    from that have "t\<^sup>2 \<le> 1" by (simp add: power_le_one)
    then have "- (1 / 2) \<le> - (t\<^sup>2) / 2" by simp
    then show ?thesis by simp
  qed
  have le: "(0::real) \<le> 1" by simp
  have "h 0 \<le> h 1"
    by (rule DERIV_nonneg_imp_nondecreasing [OF le]) (use dh nonneg in blast)
  then show ?thesis by (simp add: h_def gauss_int_zero)
qed

lemma gauss_mass_ge_one: "1 \<le> gauss_mass"
proof -
  have "1 / 2 \<le> exp (- (1 / 2) :: real)"
    using exp_ge_add_one_self [of "- (1 / 2) :: real"] by simp
  also have "\<dots> \<le> gauss_int 1" by (rule gauss_int_one)
  also have "\<dots> \<le> (SUP x. gauss_int x)"
    by (rule cSUP_upper [OF _ gauss_int_bdd]) simp
  finally show ?thesis by (simp add: gauss_mass_def)
qed

lemma Phi_left_tail:
  assumes "x \<le> - 1"
  shows "Phi x \<le> exp (- (x\<^sup>2) / 2)"
proof -
  have neg: "x < 0" using assms by simp
  have "(- x) * Phi x < exp (- (x\<^sup>2) / 2) / gauss_mass"
    using mills [OF neg] by simp
  also have "\<dots> \<le> exp (- (x\<^sup>2) / 2) / 1"
    by (rule divide_left_mono) (use gauss_mass_ge_one in simp_all)
  finally have a: "(- x) * Phi x < exp (- (x\<^sup>2) / 2)" by simp
  have "1 * Phi x \<le> (- x) * Phi x"
    using assms Phi_pos [of x] by (intro mult_right_mono) simp_all
  with a show ?thesis by simp
qed

lemma Phi_right_tail:
  assumes "1 \<le> x"
  shows "1 - exp (- (x\<^sup>2) / 2) \<le> Phi x"
  using Phi_left_tail [of "- x"] assms by (simp add: Phi_minus)


lemma norm_cdf_right_tail:
  assumes "11 \<le> a"
  shows "norm_cdf (Fin a) = Fin 1"
proof -
  have "60 \<le> a\<^sup>2 / 2"
  proof -
    have "11 * 11 \<le> a * a"
      using assms by (intro mult_mono) simp_all
    then show ?thesis by (simp add: power2_eq_square)
  qed
  then have "exp (- (a\<^sup>2 / 2)) \<le> 2 powr (- 60)"
    by (intro exp_le_pow2) simp_all
  then have "exp (- (a\<^sup>2) / 2) \<le> 2 powr (- 60)"
    by simp
  moreover have "(2::real) powr (- 60) < 2 powr (- 54)"
    by (rule powr_less_mono) simp_all
  moreover have "1 - exp (- (a\<^sup>2) / 2) \<le> Phi a"
    using assms by (intro Phi_right_tail) simp
  ultimately have "1 - 2 powr (- 54) < Phi a" by linarith
  moreover have "Phi a \<le> 1" using Phi_less_one [of a] by simp
  ultimately show ?thesis
    by (simp add: to_double_near_one)
qed

lemma norm_cdf_range:
  "norm_cdf x = NaN \<or> (\<exists>y. norm_cdf x = Fin y \<and> 0 \<le> y \<and> y \<le> 1 \<and> is_double y)"
proof (cases x)
  case (Fin a)
  have lo: "0 \<le> rnd (Phi a)"
    using Phi_pos [of a] by (intro rnd_nonneg) simp
  have hi: "rnd (Phi a) \<le> 1"
    using Phi_less_one [of a] by (intro rnd_le) simp_all
  have "\<bar>rnd (Phi a)\<bar> < 2 ^ 1024"
    using lo hi by simp
  then have "is_double (rnd (Phi a))" "to_double (Phi a) = Fin (rnd (Phi a))"
    using Phi_pos [of a] by (simp_all add: is_double_rnd to_double_def)
  with lo hi Fin show ?thesis by simp
next
  case NZero
  have "norm_cdf NZero = Fin (1 / 2) \<and> (0::real) \<le> 1 / 2 \<and> (1::real) / 2 \<le> 1 \<and> is_double (1 / 2)"
    by simp
  with NZero show ?thesis by blast
qed simp_all

section \<open>What bs_elasticity raises and what it returns\<close>

lemma py_truediv_eq:
  "py_truediv S K =
     (if python_quotient_raises S K then Inl ZeroDivisionError
      else Inr (the_double S / the_double K))"
  by (cases S; cases K) simp_all

lemma py_square_eq:
  "py_square sigma =
     (if python_square_raises sigma then Inl OverflowError
      else Inr (the_double sigma * the_double sigma))"
  by (cases sigma) simp_all

lemma half_times: "Fin (1 / 2) * x = x / Fin 2"
  by (cases x)
    (simp_all add: fin_times fin_divide times_npfloat_def divide_npfloat_def np_multiply_def
      np_true_divide_def signed_zero_def signed_inf_def is_zero_def)

lemma signed_zero_neg: "- signed_zero s = signed_zero (\<not> s)"
  by (simp add: signed_zero_def uminus_npfloat_def)

lemma signed_inf_neg: "- signed_inf s = signed_inf (\<not> s)"
  by (simp add: signed_inf_def uminus_npfloat_def)

lemma neg_times: "- x * y = - (x * y)" for x y :: npfloat
proof (cases "x = NaN \<or> y = NaN")
  case True
  then show ?thesis by auto
next
  case False
  have sb: "signbit (- x) = (\<not> signbit x)"
    using False by (cases x) (auto simp: uminus_npfloat_def)
  have fi: "is_finite (- x) = is_finite x"
    by (cases x) (simp_all add: uminus_npfloat_def)
  have re: "real_of (- x) = - real_of x"
    by (cases x) (simp_all add: uminus_npfloat_def)
  have nn: "- x \<noteq> NaN"
    using False by (cases x) (simp_all add: uminus_npfloat_def)
  have z: "is_zero (- x) = is_zero x"
    by (simp add: is_zero_def fi re)
  show ?thesis
  proof (cases "is_finite x \<and> is_finite y \<and> real_of x * real_of y \<noteq> 0")
    case True
    then have "to_double (- (real_of x * real_of y)) = - to_double (real_of x * real_of y)"
      by (intro to_double_minus) simp
    then show ?thesis
      using True False nn by (simp add: times_npfloat_def np_multiply_def fi re)
  next
    case F: False
    then show ?thesis
      using False nn
      by (auto simp: times_npfloat_def np_multiply_def fi re sb z signed_zero_neg signed_inf_neg
          simp flip: uminus_npfloat_def)
  qed
qed

lemma bs_elasticity_eq:
  "bs_elasticity S K T r sigma opt =
     (if python_quotient_raises S K then Inl ZeroDivisionError
      else if python_square_raises sigma then Inl OverflowError
      else Inr [rounded_elasticity (opt = ''call'') (the_double S) (the_double K) (the_double T)
                  (the_double r) (the_double sigma),
                rounded_price (opt = ''call'') (the_double S) (the_double K) (the_double T)
                  (the_double r) (the_double sigma)])"
  by (simp add: bs_elasticity_def bs_d1_def py_truediv_eq py_square_eq bs_price_def bs_delta_def
      rounded_elasticity_def rounded_price_def rounded_delta_def rounded_d1_def Let_def
      half_times neg_times)

section \<open>The sign of the price and of the elasticity\<close>

lemma nonnegative_cases:
  assumes "nonnegative x"
  obtains "x = PInf" | y where "x = Fin y" and "0 \<le> y"
  using assms by (cases x) (auto simp: nonnegative_def)

lemma to_double_nonnegative: "0 \<le> x \<Longrightarrow> nonnegative (to_double x)"
  using to_double_nonneg [of x] by (auto simp: nonnegative_def)

lemma nonnegative_times:
  assumes "nonnegative x" and "nonnegative y"
  shows "x * y = NaN \<or> nonnegative (x * y)"
proof -
  from assms(1) show ?thesis
  proof (cases rule: nonnegative_cases)
    case 1
    from assms(2) show ?thesis
    proof (cases rule: nonnegative_cases)
      case 1
      with \<open>x = PInf\<close> show ?thesis
        by (simp add: times_npfloat_def np_multiply_def is_zero_def signed_inf_def nonnegative_def)
    next
      case (2 b)
      with \<open>x = PInf\<close> show ?thesis
        by (simp add: times_npfloat_def np_multiply_def is_zero_def signed_inf_def nonnegative_def)
    qed
  next
    case (2 a)
    from assms(2) show ?thesis
    proof (cases rule: nonnegative_cases)
      case 1
      with 2 show ?thesis
        by (simp add: times_npfloat_def np_multiply_def is_zero_def signed_inf_def nonnegative_def)
    next
      case b: (2 b)
      have "0 \<le> a * b" using 2(2) b(2) by simp
      then have "nonnegative (to_double (a * b))" by (rule to_double_nonnegative)
      with 2 b show ?thesis
        by (auto simp: fin_times signed_zero_def nonnegative_def)
    qed
  qed
qed

lemma np_exp_nonnegative: "np_exp x = NaN \<or> nonnegative (np_exp x)"
proof (cases x)
  case (Fin a)
  have "nonnegative (to_double (exp a))"
    by (rule to_double_nonnegative) simp
  with Fin show ?thesis by simp
qed (simp_all add: nonnegative_def)

lemma norm_cdf_nonnegative: "norm_cdf x = NaN \<or> nonnegative (norm_cdf x)"
  using norm_cdf_range [of x] by (auto simp: nonnegative_def)

lemma discounted_strike_nonnegative:
  assumes "0 < k"
  shows "Fin k * np_exp x * norm_cdf y = NaN \<or> nonnegative (Fin k * np_exp x * norm_cdf y)"
proof -
  have k: "nonnegative (Fin k)" using assms by (simp add: nonnegative_def)
  show ?thesis
  proof (cases "np_exp x = NaN \<or> norm_cdf y = NaN")
    case True
    then show ?thesis by auto
  next
    case False
    then have e: "nonnegative (np_exp x)" and c: "nonnegative (norm_cdf y)"
      using np_exp_nonnegative [of x] norm_cdf_nonnegative [of y] by auto
    from nonnegative_times [OF k e] show ?thesis
    proof
      assume "Fin k * np_exp x = NaN"
      then show ?thesis by simp
    next
      assume "nonnegative (Fin k * np_exp x)"
      from nonnegative_times [OF this c] show ?thesis .
    qed
  qed
qed

text \<open>The product \<open>S * norm.cdf(..)\<close> for a positive double \<open>S\<close>.\<close>

lemma underlying_times_cdf:
  assumes "0 < s" and "is_double s" and "0 \<le> y" and "y \<le> 1"
  obtains a where "Fin s * Fin y = Fin a" and "Fin y * Fin s = Fin a" and "0 \<le> a" and "is_double a"
    and "a = 0 \<or> a = rnd (s * y)"
proof (cases "y = 0")
  case True
  then have "Fin s * Fin y = Fin 0" "Fin y * Fin s = Fin 0"
    using assms(1) by (simp_all add: fin_times signed_zero_def)
  then show ?thesis using that [of 0] by simp
next
  case False
  have lo: "0 \<le> rnd (s * y)"
    using assms by (intro rnd_nonneg) simp
  have "s * y \<le> s * 1"
    using assms by (intro mult_left_mono) simp_all
  then have hi: "rnd (s * y) \<le> s"
    using assms(2) by (intro rnd_le) simp_all
  have "\<bar>s\<bar> < 2 ^ 1024" using assms(2) by (simp add: is_double_def)
  with lo hi have fin: "\<bar>rnd (s * y)\<bar> < 2 ^ 1024" by linarith
  have pos: "0 < s * y" using assms False by simp
  then have "to_double (s * y) = Fin (rnd (s * y))"
    using fin by (simp add: to_double_def)
  then have "Fin s * Fin y = Fin (rnd (s * y))" "Fin y * Fin s = Fin (rnd (s * y))"
    using pos assms(1) False by (simp_all add: fin_times mult.commute)
  moreover have "is_double (rnd (s * y))" using fin by (rule is_double_rnd)
  ultimately show ?thesis using that [of "rnd (s * y)"] lo by simp
qed

lemma call_elasticity_at_least_one:
  assumes "0 < s" and "is_double s"
      and c1: "c1 = NaN \<or> (\<exists>y. c1 = Fin y \<and> 0 \<le> y \<and> y \<le> 1)"
      and b: "b = NaN \<or> nonnegative b"
      and price: "np_greater (Fin s * c1 - b) (Fin 0)"
  shows "np_greater_equal (c1 * Fin s / (Fin s * c1 - b)) (Fin 1)"
proof -
  have "c1 \<noteq> NaN" using price by (auto simp: np_greater_def)
  with c1 obtain y where y: "c1 = Fin y" "0 \<le> y" "y \<le> 1" by auto
  obtain a where a: "Fin s * Fin y = Fin a" "Fin y * Fin s = Fin a" "0 \<le> a" "is_double a"
    using underlying_times_cdf [OF assms(1,2) y(2,3)] by metis
  have "b \<noteq> NaN" using price by (auto simp: np_greater_def)
  with b have "nonnegative b" by simp
  then show ?thesis
  proof (cases rule: nonnegative_cases)
    case 1
    with price show ?thesis
      by (simp add: y a minus_npfloat_def np_add_def np_greater_def)
  next
    case (2 b')
    have pr: "Fin s * c1 - b = Fin a - Fin b'"
      by (simp add: y a 2)
    have gt: "0 < a - b'"
    proof (rule ccontr)
      assume "\<not> 0 < a - b'"
      then consider "a - b' = 0" | "a - b' < 0" by linarith
      then show False
      proof cases
        case 1
        with price show False by (simp add: pr fin_minus np_greater_def)
      next
        case 2
        with to_double_nonpos [OF 2] price show False
          by (auto simp: pr fin_minus np_greater_def)
      qed
    qed
    have le: "a - b' \<le> a" using 2(2) by simp
    have lo: "0 \<le> rnd (a - b')" using gt by (intro rnd_nonneg) simp
    have hi: "rnd (a - b') \<le> a" using a(4) le by (rule rnd_le)
    have "\<bar>a\<bar> < 2 ^ 1024" using a(4) by (simp add: is_double_def)
    with lo hi have "\<bar>rnd (a - b')\<bar> < 2 ^ 1024" by linarith
    then have p: "Fin a - Fin b' = Fin (rnd (a - b'))"
      using gt by (simp add: fin_minus to_double_def)
    have ppos: "0 < rnd (a - b')"
      using price lo by (simp add: pr p np_greater_def)
    have apos: "0 < a" using gt 2(2) by linarith
    have "1 \<le> a / rnd (a - b')"
      using ppos hi by (simp add: le_divide_eq)
    then have r: "1 \<le> rnd (a / rnd (a - b'))"
      by (intro rnd_ge) simp_all
    have e: "c1 * Fin s / (Fin s * c1 - b) = to_double (a / rnd (a - b'))"
      using ppos apos by (simp add: y a 2 p fin_divide)
    have "0 \<le> a / rnd (a - b')" using apos ppos by simp
    from to_double_nonneg [OF this] show ?thesis
    proof
      assume "to_double (a / rnd (a - b')) = PInf"
      then show ?thesis by (simp add: e np_greater_equal_def np_greater_def)
    next
      assume "\<exists>z. to_double (a / rnd (a - b')) = Fin z \<and> 0 \<le> z \<and> is_double z"
      then obtain z where z: "to_double (a / rnd (a - b')) = Fin z" by blast
      then have "z = rnd (a / rnd (a - b'))"
        by (auto simp: to_double_def split: if_splits)
      with r z show ?thesis by (simp add: e np_greater_equal_def np_greater_def)
    qed
  qed
qed

lemma put_elasticity_at_most_zero:
  assumes "0 < s" and "is_double s"
      and c1: "c1 = NaN \<or> (\<exists>y. c1 = Fin y \<and> 0 \<le> y \<and> y \<le> 1)"
      and price: "np_greater (B - Fin s * c1) (Fin 0)"
  shows "np_greater_equal (Fin 0) (- c1 * Fin s / (B - Fin s * c1))"
proof -
  have "c1 \<noteq> NaN" using price by (auto simp: np_greater_def)
  with c1 obtain y where y: "c1 = Fin y" "0 \<le> y" "y \<le> 1" by auto
  obtain a where a: "Fin s * Fin y = Fin a" "Fin y * Fin s = Fin a" "0 \<le> a" "is_double a"
    using underlying_times_cdf [OF assms(1,2) y(2,3)] by metis
  have "- c1 * Fin s = - (c1 * Fin s)"
    by (rule neg_times)
  also have "\<dots> = - Fin a"
    by (simp only: y a)
  also have "\<dots> = (if a = 0 then NZero else Fin (- a))"
    by (rule fin_uminus)
  finally have m: "- c1 * Fin s = (if a = 0 then NZero else Fin (- a))" .
  define P where "P = B - Fin s * c1"
  have P: "P = PInf \<or> (\<exists>p. P = Fin p \<and> 0 < p)"
    using price unfolding P_def [symmetric] by (cases P) (simp_all add: np_greater_def)
  have "np_greater_equal (Fin 0) ((if a = 0 then NZero else Fin (- a)) / P)"
  proof (cases "a = 0")
    case True
    with P show ?thesis
      by (auto simp: divide_npfloat_def np_true_divide_def signed_zero_def np_greater_equal_def
          np_greater_def)
  next
    case False
    with a(3) have apos: "0 < a" by simp
    from P show ?thesis
    proof
      assume "P = PInf"
      with False show ?thesis
        by (simp add: divide_npfloat_def np_true_divide_def signed_zero_def np_greater_equal_def
            np_greater_def)
    next
      assume "\<exists>p. P = Fin p \<and> 0 < p"
      then obtain p where p: "P = Fin p" "0 < p" by blast
      have "- a / p < 0" using apos p(2) by (simp add: divide_neg_pos)
      from to_double_nonpos [OF this] have "np_greater_equal (Fin 0) (to_double (- a / p))"
        by (auto simp: np_greater_equal_def np_greater_def)
      then show ?thesis
        using False p by (simp add: fin_divide)
    qed
  qed
  then show ?thesis
    unfolding m P_def .
qed

text \<open>
  Claim C7, as the code has it. For a positive underlying and a positive strike, and
  whenever the price that \<open>bs_elasticity\<close> returns is positive, the elasticity it
  returns for a call is at least \<open>1\<close> (\<^verbatim>\<open>elast >= 1\<close> holds; it can be \<open>1.0\<close> exactly, or
  \<^verbatim>\<open>inf\<close>), and the elasticity it returns for a put is at most \<open>0\<close> (\<^verbatim>\<open>0 >= elast\<close>
  holds). Neither bound is strict, and a put's elasticity is not below \<open>-1\<close> in
  general. Nothing is asked of \<open>T\<close>, \<open>r\<close> and \<open>sigma\<close>.
\<close>

theorem elasticity_bounds:
  assumes "the_double S = Fin s" and "0 < s" and "is_double s"
      and "the_double K = Fin k" and "0 < k"
      and "bs_elasticity S K T r sigma opt = Inr [elast, price]"
      and "np_greater price (Fin 0)"
  shows "(opt = ''call'' \<longrightarrow> np_greater_equal elast (Fin 1))
         \<and> (opt \<noteq> ''call'' \<longrightarrow> np_greater_equal (Fin 0) elast)"
proof -
  let ?d1 = "rounded_d1 (Fin s) (Fin k) (the_double T) (the_double r) (the_double sigma)"
  let ?v = "the_double sigma * np_sqrt (the_double T)"
  let ?E = "np_exp (- (the_double r * the_double T))"
  from assms(6) have
    e: "elast = rounded_elasticity (opt = ''call'') (Fin s) (Fin k) (the_double T) (the_double r)
                  (the_double sigma)"
    and p: "price = rounded_price (opt = ''call'') (Fin s) (Fin k) (the_double T) (the_double r)
                  (the_double sigma)"
    unfolding bs_elasticity_eq assms(1,4) by (simp_all split: if_splits)
  have range: "c = NaN \<or> (\<exists>y. c = Fin y \<and> 0 \<le> y \<and> y \<le> 1)" if "c = norm_cdf x" for c x
    using norm_cdf_range [of x] that by auto
  show ?thesis
  proof (intro conjI impI)
    assume call: "opt = ''call''"
    have pr: "price = Fin s * norm_cdf ?d1 - Fin k * ?E * norm_cdf (?d1 - ?v)"
      unfolding p using call by (simp add: rounded_price_def Let_def)
    have el: "elast = norm_cdf ?d1 * Fin s / (Fin s * norm_cdf ?d1 - Fin k * ?E * norm_cdf (?d1 - ?v))"
      unfolding e using call
      by (simp add: rounded_elasticity_def rounded_delta_def rounded_price_def Let_def)
    show "np_greater_equal elast (Fin 1)"
      unfolding el
      by (rule call_elasticity_at_least_one [OF assms(2,3) range [OF refl]
            discounted_strike_nonnegative [OF assms(5)] assms(7) [unfolded pr]])
  next
    assume put: "opt \<noteq> ''call''"
    have pr: "price = Fin k * ?E * norm_cdf (- ?d1 + ?v) - Fin s * norm_cdf (- ?d1)"
      unfolding p using put by (simp add: rounded_price_def Let_def)
    have el: "elast = - norm_cdf (- ?d1) * Fin s
                / (Fin k * ?E * norm_cdf (- ?d1 + ?v) - Fin s * norm_cdf (- ?d1))"
      unfolding e using put
      by (simp add: rounded_elasticity_def rounded_delta_def rounded_price_def Let_def)
    show "np_greater_equal (Fin 0) elast"
      unfolding el
      by (rule put_elasticity_at_most_zero [OF assms(2,3) range [OF refl] assms(7) [unfolded pr]])
  qed
qed

section \<open>Evaluations of bs_elasticity\<close>

lemma fin_plus_range:
  assumes "is_double lo" and "is_double hi" and "0 < lo \<or> hi < 0" and "lo \<le> a + b" and "a + b \<le> hi"
  obtains y where "Fin a + Fin b = Fin y" and "lo \<le> y" and "y \<le> hi" and "is_double y"
proof -
  have "a + b \<noteq> 0" using assms(3-5) by auto
  then have "Fin a + Fin b = to_double (a + b)" by (simp add: fin_plus)
  with to_double_range [OF assms] that show ?thesis by auto
qed

lemma fin_minus_range:
  assumes "is_double lo" and "is_double hi" and "0 < lo \<or> hi < 0" and "lo \<le> a - b" and "a - b \<le> hi"
  obtains y where "Fin a - Fin b = Fin y" and "lo \<le> y" and "y \<le> hi" and "is_double y"
proof -
  have "a - b \<noteq> 0" using assms(3-5) by auto
  then have "Fin a - Fin b = to_double (a - b)" by (simp add: fin_minus)
  with to_double_range [OF assms] that show ?thesis by auto
qed

lemma fin_times_range:
  assumes "is_double lo" and "is_double hi" and "0 < lo \<or> hi < 0" and "lo \<le> a * b" and "a * b \<le> hi"
  obtains y where "Fin a * Fin b = Fin y" and "lo \<le> y" and "y \<le> hi" and "is_double y"
proof -
  have "a * b \<noteq> 0" using assms(3-5) by auto
  then have "Fin a * Fin b = to_double (a * b)" by (simp add: fin_times)
  with to_double_range [OF assms] that show ?thesis by auto
qed

lemma fin_divide_range:
  assumes "is_double lo" and "is_double hi" and "0 < lo \<or> hi < 0" and "lo \<le> a / b" and "a / b \<le> hi"
  obtains y where "Fin a / Fin b = Fin y" and "lo \<le> y" and "y \<le> hi" and "is_double y"
proof -
  have "a / b \<noteq> 0" using assms(3-5) by auto
  then have "Fin a / Fin b = to_double (a / b)" by (auto simp: fin_divide)
  with to_double_range [OF assms] that show ?thesis by auto
qed

lemma half_le_ln2: "1 / 2 \<le> ln (2::real)"
proof -
  have "1 / 2 \<le> exp (- (1 / 2) :: real)"
    using exp_ge_add_one_self [of "- (1 / 2) :: real"] by simp
  then have "exp (1 / 2 :: real) \<le> 2"
    by (simp add: exp_minus inverse_eq_divide field_simps)
  then have "ln (exp (1 / 2 :: real)) \<le> ln 2"
    by (subst ln_le_cancel_iff) simp_all
  then show ?thesis by simp
qed

lemma ln_pow2: "ln ((2::real) ^ n) = real n * ln 2"
  by (simp add: ln_realpow)

lemma ln_quarter_range: "- 2 \<le> ln (1 / 4 :: real)" "ln (1 / 4 :: real) \<le> - 1"
proof -
  have "ln (1 / 4 :: real) = - ln (2 ^ 2)"
    by (simp add: ln_div)
  also have "\<dots> = - (2 * ln 2)"
    unfolding ln_pow2 by simp
  finally have e: "ln (1 / 4 :: real) = - (2 * ln 2)" .
  show "- 2 \<le> ln (1 / 4 :: real)" "ln (1 / 4 :: real) \<le> - 1"
    unfolding e using ln2_le_one half_le_ln2 by simp_all
qed


lemma discount_range: "3 / 4 \<le> exp (- (1 / 256) :: real)" "exp (- (1 / 256) :: real) \<le> 1"
  using exp_ge_add_one_self [of "- (1 / 256) :: real"] by simp_all

lemma sqrt_quarter: "sqrt (1 / 4) = 1 / 2"
  by (rule real_sqrt_unique) (simp_all add: power2_eq_square)

lemma is_double_fracs:
  "is_double (1 / 4)" "is_double (1 / 8)" "is_double (1 / 16)" "is_double (1 / 32)" "is_double (1 / 64)"
  "is_double (1 / 128)" "is_double (1 / 256)" "is_double (3 / 4)" "is_double (3 / 64)"
  "is_double (3 / 128)" "is_double (3 / 256)" "is_double (3 / 512)" "is_double (31 / 64)"
  "is_double (63 / 64)" "is_double (1 / 4096)" "is_double (1 / 8192)" "is_double (129 / 8192)"
  "is_double (129 / 32768)"
  using is_double_frac [of 1 2] is_double_frac [of 1 3] is_double_frac [of 1 4] is_double_frac [of 1 5]
    is_double_frac [of 1 6] is_double_frac [of 1 7] is_double_frac [of 1 8] is_double_frac [of 3 2]
    is_double_frac [of 3 6] is_double_frac [of 3 7] is_double_frac [of 3 8] is_double_frac [of 3 9]
    is_double_frac [of 31 6] is_double_frac [of 63 6] is_double_frac [of 1 12] is_double_frac [of 1 13]
    is_double_frac [of 129 13] is_double_frac [of 129 15]
  by simp_all

text \<open>At \<open>T = 0\<close> and \<open>S = K\<close> the quotient that defines \<open>d1\<close> is \<open>0 / 0\<close>, whatever \<open>r\<close>
  and \<open>sigma\<close>.\<close>

lemma times_zero_cases: "x * Fin 0 = Fin 0 \<or> x * Fin 0 = NZero \<or> x * Fin 0 = NaN"
  by (cases x) (simp_all add: times_npfloat_def np_multiply_def signed_zero_def is_zero_def)

lemma rounded_d1_at_expiry:
  assumes "s \<noteq> 0"
  shows "rounded_d1 (Fin s) (Fin s) (Fin 0) r sigma = NaN"
proof -
  have l: "np_log (Fin s / Fin s) = Fin 0"
    using assms by (simp add: fin_divide to_double_exact)
  have n: "Fin 0 + g * Fin 0 = Fin 0 \<or> Fin 0 + g * Fin 0 = NaN" for g
    using times_zero_cases [of g] by (auto simp: fin_plus plus_npfloat_def np_add_def)
  have d: "sigma * np_sqrt (Fin 0) = Fin 0 \<or> sigma * np_sqrt (Fin 0) = NZero
           \<or> sigma * np_sqrt (Fin 0) = NaN"
    using times_zero_cases [of sigma] by simp
  have q: "x / y = NaN" if "x = Fin 0 \<or> x = NaN" "y = Fin 0 \<or> y = NZero \<or> y = NaN" for x y
    using that by (auto simp: divide_npfloat_def np_true_divide_def)
  show ?thesis
    unfolding rounded_d1_def l by (rule q [OF n d])
qed

lemma bs_elasticity_at_expiry:
  assumes "s \<noteq> 0"
  shows "bs_elasticity (Float64 (Fin s)) (Float64 (Fin s)) (Float64 (Fin 0)) r (Float64 sigma) opt
           = Inr [NaN, NaN]"
  using rounded_d1_at_expiry [OF assms, of "the_double r" sigma]
  by (simp add: bs_elasticity_eq rounded_elasticity_def rounded_price_def rounded_delta_def Let_def)

lemma discount_factor:
  obtains e where "np_exp (- (Fin (1 / 64) * Fin (1 / 4))) = Fin e" and "3 / 4 \<le> e" and "e \<le> 1"
    and "is_double e"
proof -
  have "Fin (1 / 64) * Fin (1 / 4) = Fin (1 / 256)"
    using is_double_fracs by (simp add: fin_times to_double_exact)
  then have "np_exp (- (Fin (1 / 64) * Fin (1 / 4))) = to_double (exp (- (1 / 256)))"
    by (simp add: fin_uminus)
  with to_double_range [of "3 / 4" 1 "exp (- (1 / 256))"] discount_range is_double_fracs that
  show ?thesis by auto
qed



text \<open>
  A call deep in the money: \<open>S = 100\<close>, \<open>K = 2 ^ -50\<close>, \<open>T = 1/4\<close>, \<open>r = 1/64\<close>,
  \<open>sigma = 1/4\<close>. \<open>d1\<close> is above \<open>200\<close>, where \<^verbatim>\<open>norm.cdf\<close> is \<open>1.0\<close>, and the
  discounted strike is lost in the rounding of \<open>100 - K * exp(-rT)\<close>.
\<close>

lemma ln_deep_range: "28 \<le> ln (100 * 2 ^ 50 :: real)" "ln (100 * 2 ^ 50 :: real) \<le> 57"
proof -
  have "ln ((2::real) ^ 56) \<le> ln (100 * 2 ^ 50)"
    by (subst ln_le_cancel_iff) simp_all
  moreover have "28 \<le> ln ((2::real) ^ 56)"
    unfolding ln_pow2 using half_le_ln2 by simp
  ultimately show "28 \<le> ln (100 * 2 ^ 50 :: real)" by linarith
  have "ln (100 * 2 ^ 50) \<le> ln ((2::real) ^ 57)"
    by (subst ln_le_cancel_iff) simp_all
  moreover have "ln ((2::real) ^ 57) \<le> 57"
    unfolding ln_pow2 using ln2_le_one by simp
  ultimately show "ln (100 * 2 ^ 50 :: real) \<le> 57" by linarith
qed

lemma to_double_absorbed:
  assumes "0 < t" and "t \<le> 1 / 2 ^ 50"
  shows "to_double (100 - t) = Fin 100"
proof -
  have t: "t \<le> 1" using assms(2) by simp
  have e: "exponent (100 - t) = 6"
    using assms(1) t by (intro exponent_eqI) simp_all
  have p: "(2::real) powr of_int (6 - 52) = 1 / 2 ^ 46"
    by (simp add: powr_minus_divide)
  have n: "real_of_int (100 * 2 ^ 46) * 2 powr of_int (6 - 52) = 100"
    unfolding p by simp
  have "\<bar>100 - t - real_of_int (100 * 2 ^ 46) * 2 powr of_int (6 - 52)\<bar> < 2 powr of_int (6 - 52) / 2"
    unfolding n unfolding p using assms by simp
  from rnd_absorb [OF e this] have "rnd (100 - t) = 100"
    unfolding n .
  then show ?thesis by (simp add: to_double_def)
qed

lemma deep_call:
  "bs_elasticity (PyFloat (Fin 100)) (PyFloat (Fin (1 / 2 ^ 50))) (PyFloat (Fin (1 / 4)))
     (PyFloat (Fin (1 / 64))) (PyFloat (Fin (1 / 4))) ''call'' = Inr [Fin 1, Fin 100]"
proof -
  note d = is_double_fracs
  have dk: "is_double (1 / 2 ^ 50)" "is_double (1 / 2 ^ 51)"
    using is_double_frac [of 1 50] is_double_frac [of 1 51] by simp_all
  have dn: "is_double (100 * 2 ^ 50)"
    using is_double_dyadic [of 25 52] by simp
  have q: "Fin 100 / Fin (1 / 2 ^ 50) = Fin (100 * 2 ^ 50)"
    using dn by (simp add: fin_divide to_double_exact)
  obtain l where l: "np_log (Fin (100 * 2 ^ 50)) = Fin l" "28 \<le> l" "l \<le> 57"
    using to_double_range [of 28 57 "ln (100 * 2 ^ 50)"] ln_deep_range
    by (auto simp: is_double_numeral)
  have sq: "Fin (1 / 4) * Fin (1 / 4) / Fin 2 = Fin (1 / 32)"
    using d by (simp add: fin_times fin_divide to_double_exact)
  have rs: "Fin (1 / 64) + Fin (1 / 32) = Fin (3 / 64)"
    using d by (simp add: fin_plus to_double_exact)
  have rt: "Fin (3 / 64) * Fin (1 / 4) = Fin (3 / 256)"
    using d by (simp add: fin_times to_double_exact)
  obtain n where n: "Fin l + Fin (3 / 256) = Fin n" "28 \<le> n" "n \<le> 58"
    by (rule fin_plus_range [of 28 58 l "3 / 256"]) (use l in \<open>simp_all add: is_double_numeral\<close>)
  have sr: "np_sqrt (Fin (1 / 4)) = Fin (1 / 2)"
    by (simp add: sqrt_quarter to_double_exact)
  have v: "Fin (1 / 4) * Fin (1 / 2) = Fin (1 / 8)"
    using d by (simp add: fin_times to_double_exact)
  obtain d1 where d1: "Fin n / Fin (1 / 8) = Fin d1" "224 \<le> d1" "d1 \<le> 464"
    by (rule fin_divide_range [of 224 464 n "1 / 8"]) (use n in \<open>simp_all add: is_double_numeral\<close>)
  have D: "rounded_d1 (Fin 100) (Fin (1 / 2 ^ 50)) (Fin (1 / 4)) (Fin (1 / 64)) (Fin (1 / 4)) = Fin d1"
    unfolding rounded_d1_def q l(1) sq rs rt n(1) sr v d1(1) ..
  have c1: "norm_cdf (Fin d1) = Fin 1"
    using d1(2) by (intro norm_cdf_right_tail) simp
  obtain d2 where d2: "Fin d1 - Fin (1 / 8) = Fin d2" "223 \<le> d2" "d2 \<le> 464"
    by (rule fin_minus_range [of 223 464 d1 "1 / 8"]) (use d1 in \<open>simp_all add: is_double_numeral\<close>)
  have c2: "norm_cdf (Fin d2) = Fin 1"
    using d2(2) by (intro norm_cdf_right_tail) simp
  obtain e where e: "np_exp (- (Fin (1 / 64) * Fin (1 / 4))) = Fin e" "3 / 4 \<le> e" "e \<le> 1"
    by (rule discount_factor)
  obtain ke where ke: "Fin (1 / 2 ^ 50) * Fin e = Fin ke" "1 / 2 ^ 51 \<le> ke" "ke \<le> 1 / 2 ^ 50"
    "is_double ke"
    by (rule fin_times_range [of "1 / 2 ^ 51" "1 / 2 ^ 50" "1 / 2 ^ 50" e]) (use e dk in simp_all)
  have kpos: "0 < ke" using ke(2) by simp
  have k1: "Fin ke * Fin 1 = Fin ke"
    using kpos ke(4) by (simp add: fin_times to_double_exact)
  have s1: "Fin 100 * Fin 1 = Fin 100" "Fin 1 * Fin 100 = Fin 100"
    by (simp_all add: fin_times to_double_exact is_double_numeral)
  have pr: "Fin 100 - Fin ke = Fin 100"
    using to_double_absorbed [OF kpos ke(3)] kpos ke(3) by (simp add: fin_minus)
  have el: "Fin 100 / Fin 100 = Fin 1"
    by (simp add: fin_divide to_double_exact)
  have p: "rounded_price True (Fin 100) (Fin (1 / 2 ^ 50)) (Fin (1 / 4)) (Fin (1 / 64)) (Fin (1 / 4))
             = Fin 100"
    unfolding rounded_price_def Let_def D if_True c1 sr v d2(1) c2 e(1) ke(1) k1 s1 pr ..
  have ee: "rounded_elasticity True (Fin 100) (Fin (1 / 2 ^ 50)) (Fin (1 / 4)) (Fin (1 / 64)) (Fin (1 / 4))
             = Fin 1"
    unfolding rounded_elasticity_def rounded_delta_def Let_def D if_True c1 p s1 el ..
  have nr: "\<not> python_square_raises (PyFloat (Fin (1 / 4)))"
    using d by (simp add: fin_times to_double_exact)
  have nq: "\<not> python_quotient_raises (PyFloat (Fin 100)) (PyFloat (Fin (1 / 2 ^ 50)))"
    by (simp add: is_zero_def)
  show ?thesis
    unfolding bs_elasticity_eq using nr nq ee p by simp
qed

text \<open>
  A put deep in the money: \<open>S = 25\<close>, \<open>K = 100\<close>, \<open>T = 1/4\<close>, \<open>r = 1/64\<close>,
  \<open>sigma = 1/8\<close>. \<open>d1\<close> is about \<open>-22\<close>; the put is worth \<open>K * exp(-rT) - S\<close>, about
  \<open>74.6\<close>, its delta is \<open>-1.0\<close> and its elasticity about \<open>-0.335\<close>.
\<close>

lemma deep_put:
  obtains elast price where
    "bs_elasticity (PyFloat (Fin 25)) (PyFloat (Fin 100)) (PyFloat (Fin (1 / 4)))
       (PyFloat (Fin (1 / 64))) (PyFloat (Fin (1 / 8))) ''put'' = Inr [Fin elast, Fin price]"
    and "50 \<le> price" and "price \<le> 75" and "- (1 / 2) \<le> elast" and "elast \<le> - (1 / 4)"
proof -
  note d = is_double_fracs
  have q: "Fin 25 / Fin 100 = Fin (1 / 4)"
    using d by (simp add: fin_divide to_double_exact)
  obtain l where l: "np_log (Fin (1 / 4)) = Fin l" "- 2 \<le> l" "l \<le> - 1"
    using to_double_range [of "- 2" "- 1" "ln (1 / 4)"] ln_quarter_range by auto
  have sq: "Fin (1 / 8) * Fin (1 / 8) / Fin 2 = Fin (1 / 128)"
    using d by (simp add: fin_times fin_divide to_double_exact)
  have rs: "Fin (1 / 64) + Fin (1 / 128) = Fin (3 / 128)"
    using d by (simp add: fin_plus to_double_exact)
  have rt: "Fin (3 / 128) * Fin (1 / 4) = Fin (3 / 512)"
    using d by (simp add: fin_times to_double_exact)
  obtain n where n: "Fin l + Fin (3 / 512) = Fin n" "- 2 \<le> n" "n \<le> - (63 / 64)"
    by (rule fin_plus_range [of "- 2" "- (63 / 64)" l "3 / 512"]) (use l d in simp_all)
  have sr: "np_sqrt (Fin (1 / 4)) = Fin (1 / 2)"
    by (simp add: sqrt_quarter to_double_exact)
  have v: "Fin (1 / 8) * Fin (1 / 2) = Fin (1 / 16)"
    using d by (simp add: fin_times to_double_exact)
  obtain d1 where d1: "Fin n / Fin (1 / 16) = Fin d1" "- 32 \<le> d1" "d1 \<le> - 15"
    by (rule fin_divide_range [of "- 32" "- 15" n "1 / 16"]) (use n in \<open>simp_all add: is_double_numeral\<close>)
  have D: "rounded_d1 (Fin 25) (Fin 100) (Fin (1 / 4)) (Fin (1 / 64)) (Fin (1 / 8)) = Fin d1"
    unfolding rounded_d1_def q l(1) sq rs rt n(1) sr v d1(1) ..
  have m: "- Fin d1 = Fin (- d1)"
    using d1(3) by (simp add: fin_uminus)
  have c1: "norm_cdf (Fin (- d1)) = Fin 1"
    using d1(3) by (intro norm_cdf_right_tail) simp
  obtain d2 where d2: "Fin (- d1) + Fin (1 / 16) = Fin d2" "15 \<le> d2" "d2 \<le> 33"
    by (rule fin_plus_range [of 15 33 "- d1" "1 / 16"]) (use d1 in \<open>simp_all add: is_double_numeral\<close>)
  have c2: "norm_cdf (Fin d2) = Fin 1"
    using d2(2) by (intro norm_cdf_right_tail) simp
  obtain e where e: "np_exp (- (Fin (1 / 64) * Fin (1 / 4))) = Fin e" "3 / 4 \<le> e" "e \<le> 1"
    by (rule discount_factor)
  obtain ke where ke: "Fin 100 * Fin e = Fin ke" "75 \<le> ke" "ke \<le> 100" "is_double ke"
    by (rule fin_times_range [of 75 100 100 e]) (use e in \<open>simp_all add: is_double_numeral\<close>)
  have k1: "Fin ke * Fin 1 = Fin ke"
    using ke(2,4) by (simp add: fin_times to_double_exact)
  have s1: "Fin 25 * Fin 1 = Fin 25"
    by (simp add: fin_times to_double_exact is_double_numeral)
  obtain p where p: "Fin ke - Fin 25 = Fin p" "50 \<le> p" "p \<le> 75"
    by (rule fin_minus_range [of 50 75 ke 25]) (use ke in \<open>simp_all add: is_double_numeral\<close>)
  have dl: "- Fin 1 * Fin 25 = Fin (- 25)"
    by (simp add: fin_uminus fin_times to_double_exact is_double_numeral)
  obtain el where el: "Fin (- 25) / Fin p = Fin el" "- (1 / 2) \<le> el" "el \<le> - (1 / 4)"
    by (rule fin_divide_range [of "- (1 / 2)" "- (1 / 4)" "- 25" p])
      (use p d in \<open>simp_all add: field_simps\<close>)
  have P: "rounded_price False (Fin 25) (Fin 100) (Fin (1 / 4)) (Fin (1 / 64)) (Fin (1 / 8)) = Fin p"
    unfolding rounded_price_def Let_def D if_False m c1 sr v d2(1) c2 e(1) ke(1) k1 s1 p(1) ..
  have E: "rounded_elasticity False (Fin 25) (Fin 100) (Fin (1 / 4)) (Fin (1 / 64)) (Fin (1 / 8)) = Fin el"
    unfolding rounded_elasticity_def rounded_delta_def Let_def D if_False m c1 P dl el(1) ..
  have nr: "\<not> python_square_raises (PyFloat (Fin (1 / 8)))"
    using d by (simp add: fin_times to_double_exact)
  have nq: "\<not> python_quotient_raises (PyFloat (Fin 25)) (PyFloat (Fin 100))"
    by (simp add: is_zero_def)
  have "bs_elasticity (PyFloat (Fin 25)) (PyFloat (Fin 100)) (PyFloat (Fin (1 / 4)))
       (PyFloat (Fin (1 / 64))) (PyFloat (Fin (1 / 8))) ''put'' = Inr [Fin el, Fin p]"
    unfolding bs_elasticity_eq using nr nq E P by simp
  with p el that show ?thesis by blast
qed

section \<open>The closed form\<close>




section \<open>The bounds of the elasticity at two inputs\<close>

theorem elasticity_bounds_witness:
  "the_double (PyFloat (Fin 100)) = Fin 100 \<and> (0::real) < 100 \<and> is_double 100
   \<and> the_double (PyFloat (Fin (1 / 2 ^ 50))) = Fin (1 / 2 ^ 50) \<and> (0::real) < 1 / 2 ^ 50
   \<and> bs_elasticity (PyFloat (Fin 100)) (PyFloat (Fin (1 / 2 ^ 50))) (PyFloat (Fin (1 / 4)))
        (PyFloat (Fin (1 / 64))) (PyFloat (Fin (1 / 4))) ''call'' = Inr [Fin 1, Fin 100]
   \<and> np_greater (Fin 100) (Fin 0)
   \<and> np_greater_equal (Fin 1) (Fin 1)"
proof -
  have a: "the_double (PyFloat (Fin 100)) = Fin 100" "(0::real) < 100" "is_double 100"
    "the_double (PyFloat (Fin (1 / 2 ^ 50))) = Fin (1 / 2 ^ 50)" "(0::real) < 1 / 2 ^ 50"
    "np_greater (Fin 100) (Fin 0)"
    by (simp_all add: is_double_numeral np_greater_def)
  from elasticity_bounds [OF a(1-5) deep_call a(6)] a deep_call
  show ?thesis by simp
qed

text \<open>
  Claim C7 fails. For the put with \<open>S = 25\<close>, \<open>K = 100\<close>, \<open>T = 1/4\<close>, \<open>r = 1/64\<close> and
  \<open>sigma = 1/8\<close>, deep in the money, the price returned is between \<open>50\<close> and \<open>75\<close> and
  the elasticity returned between \<open>-1/2\<close> and \<open>-1/4\<close>: above \<open>-1\<close>. For the call with
  \<open>S = 100\<close>, \<open>K = 2 ^ -50\<close>, \<open>T = 1/4\<close>, \<open>r = 1/64\<close> and \<open>sigma = 1/4\<close> the elasticity
  returned is \<open>1.0\<close>, not above \<open>1\<close>.
\<close>

theorem elasticity_bounds_counterexample:
  "(\<exists>elast price.
       bs_elasticity (PyFloat (Fin 25)) (PyFloat (Fin 100)) (PyFloat (Fin (1 / 4)))
         (PyFloat (Fin (1 / 64))) (PyFloat (Fin (1 / 8))) ''put'' = Inr [elast, price]
       \<and> np_greater price (Fin 0) \<and> np_greater elast (Fin (- 1)))
   \<and> bs_elasticity (PyFloat (Fin 100)) (PyFloat (Fin (1 / 2 ^ 50))) (PyFloat (Fin (1 / 4)))
        (PyFloat (Fin (1 / 64))) (PyFloat (Fin (1 / 4))) ''call'' = Inr [Fin 1, Fin 100]
   \<and> \<not> np_greater (Fin 1) (Fin 1)"
proof -
  obtain elast price where
    "bs_elasticity (PyFloat (Fin 25)) (PyFloat (Fin 100)) (PyFloat (Fin (1 / 4)))
       (PyFloat (Fin (1 / 64))) (PyFloat (Fin (1 / 8))) ''put'' = Inr [Fin elast, Fin price]"
    "50 \<le> price" "- (1 / 2) \<le> elast"
    by (rule deep_put)
  then have "\<exists>elast price.
       bs_elasticity (PyFloat (Fin 25)) (PyFloat (Fin 100)) (PyFloat (Fin (1 / 4)))
         (PyFloat (Fin (1 / 64))) (PyFloat (Fin (1 / 8))) ''put'' = Inr [elast, price]
       \<and> np_greater price (Fin 0) \<and> np_greater elast (Fin (- 1))"
    by (intro exI [of _ "Fin elast"] exI [of _ "Fin price"]) (simp add: np_greater_def)
  then show ?thesis
    using deep_call by (simp add: np_greater_def)
qed

section \<open>Missing validation\<close>

lemma bs_elasticity_float64:
  "bs_elasticity (Float64 s) (Float64 k) (Float64 t) r (Float64 v) opt
     = Inr [rounded_elasticity (opt = ''call'') s k t (the_double r) v,
            rounded_price (opt = ''call'') s k t (the_double r) v]"
  by (simp add: bs_elasticity_eq)

lemma leverage_return_eq:
  "leverage_return q r opt =
     Inr (daily_return q
          / rounded_elasticity (opt = ''call'') (underlying q) (strike q) (ttm q / Fin 365) r (iv q))"
  by (simp add: leverage_return_def bs_elasticity_float64)

lemma bs_elasticity_raises_iff:
  "(\<exists>e. bs_elasticity S K T r sigma opt = Inl e)
     = (python_quotient_raises S K \<or> python_square_raises sigma)"
  by (simp add: bs_elasticity_eq)

lemma weighted_subset_map_sum:
  assumes "\<forall>q. option_type (f q) = option_type q \<and> moneyness (f q) = moneyness q \<and> ttm (f q) = ttm q"
  shows "weighted_subset (map f data) k t opt
           = map_sum id (map (\<lambda>(q, w). (f q, w))) (weighted_subset data k t opt)"
  using assms by (simp add: weighted_subset_map split: sum.splits)

text \<open>
  Claim C6, as the code has it. \<open>bs_elasticity\<close> validates nothing. It never raises
  \<^verbatim>\<open>ValueError\<close>. It raises exactly when \<^verbatim>\<open>S / K\<close> or \<^verbatim>\<open>sigma ** 2\<close> does, which is
  for Python floats only and whatever \<open>T\<close>, the sign of \<open>sigma\<close> and the price are;
  on numpy doubles, the rows of a table among them, it returns a pair for every
  input, \<open>nan\<close> or an infinity where the arithmetic gives one, and the leverage
  return of a row is computed without an exception. Its caller neither drops nor
  flags a row for its volatility or its price: which rows of a bucket are kept,
  and with what weight, depends on their option type, moneyness and days to
  maturity only.
\<close>

theorem bs_elasticity_validates_nothing:
  assumes "\<forall>q. option_type (f q) = option_type q \<and> moneyness (f q) = moneyness q \<and> ttm (f q) = ttm q"
  shows "bs_elasticity S K T r sigma opt \<noteq> Inl ValueError
         \<and> ((\<exists>e. bs_elasticity S K T r sigma opt = Inl e)
              = (python_quotient_raises S K \<or> python_square_raises sigma))
         \<and> (\<exists>elast price.
              bs_elasticity (Float64 s) (Float64 k) (Float64 t) r (Float64 v) opt = Inr [elast, price])
         \<and> (\<exists>l. leverage_return q r' opt = Inr l)
         \<and> weighted_subset (map f data) k_s_target ttm_target opt'
             = map_sum id (map (\<lambda>(q, w). (f q, w))) (weighted_subset data k_s_target ttm_target opt')"
  using weighted_subset_map_sum [OF assms, of data k_s_target ttm_target opt']
  by (simp add: bs_elasticity_raises_iff bs_elasticity_float64 leverage_return_eq)
   (simp add: bs_elasticity_eq)

lemma volatility_literal:
  obtains v where "to_double 0.2 = Fin v" and "1 / 8 \<le> v" and "v \<le> 1 / 4"
proof -
  from to_double_range [of "1 / 8" "1 / 4" "0.2"] is_double_fracs that show ?thesis by auto
qed

lemma kernel_weights_at_any_target:
  "kernel_weights [Fin m] [Fin t] (Fin m) (Fin t) (to_double 0.0125) (Fin 10) = Inr (Fin 1)"
  using zero_over_bandwidth
  by (simp add: kernel_weights_def column_stack_def cdist_col_def np_broadcast_def np_sum_def Let_def
      distance_zero fin_divide fin_plus fin_times signed_zero_def to_double_exact)

lemma weighted_subset_zero_vol:
  "weighted_subset [example_quote ''call'' 30 0] (Fin 1) (Fin 30) ''call''
     = Inr [(example_quote ''call'' 30 0, Fin 1)]"
  using kernel_weights_at_any_target [of 1 30]
  by (intro weighted_subset_single) (simp_all add: example_quote_def)

lemma python_floats_at_expiry:
  "bs_elasticity (PyFloat (Fin 100)) (PyFloat (Fin 100)) (PyFloat (Fin 0)) (PyFloat (to_double 0.01))
     (PyFloat (to_double 0.2)) ''call'' = Inr [NaN, NaN]"
proof -
  obtain v where v: "to_double 0.2 = Fin v" "1 / 8 \<le> v" "v \<le> 1 / 4"
    by (rule volatility_literal)
  have "(1 / 8) * (1 / 8) \<le> v * v"
    by (rule mult_mono) (use v in simp_all)
  moreover have "v * v \<le> (1 / 4) * (1 / 4)"
    by (rule mult_mono) (use v in simp_all)
  ultimately have b: "1 / 64 \<le> v * v" "v * v \<le> 1 / 16" by simp_all
  obtain w where "Fin v * Fin v = Fin w"
    by (rule fin_times_range [of "1 / 64" "1 / 16" v v]) (use b is_double_fracs in simp_all)
  then have nr: "\<not> python_square_raises (PyFloat (to_double 0.2))"
    using v(1) by simp
  have nq: "\<not> python_quotient_raises (PyFloat (Fin 100)) (PyFloat (Fin 100))"
    by (simp add: is_zero_def)
  have "rounded_d1 (Fin 100) (Fin 100) (Fin 0) (to_double 0.01) (to_double 0.2) = NaN"
    by (rule rounded_d1_at_expiry) simp
  then show ?thesis
    using nr nq
    by (simp add: bs_elasticity_eq rounded_elasticity_def rounded_price_def rounded_delta_def Let_def)
qed

theorem bs_elasticity_validates_nothing_witness:
  "(\<forall>q. option_type (q\<lparr>iv := Fin (- 1)\<rparr>) = option_type q
         \<and> moneyness (q\<lparr>iv := Fin (- 1)\<rparr>) = moneyness q \<and> ttm (q\<lparr>iv := Fin (- 1)\<rparr>) = ttm q)
   \<and> bs_elasticity (PyFloat (Fin 100)) (PyFloat (Fin 0)) (PyFloat (Fin 0)) (PyFloat (Fin 0))
        (PyFloat (Fin (- 1))) ''call'' \<noteq> Inl ValueError
   \<and> ((\<exists>e. bs_elasticity (PyFloat (Fin 100)) (PyFloat (Fin 0)) (PyFloat (Fin 0)) (PyFloat (Fin 0))
               (PyFloat (Fin (- 1))) ''call'' = Inl e)
        = (python_quotient_raises (PyFloat (Fin 100)) (PyFloat (Fin 0))
           \<or> python_square_raises (PyFloat (Fin (- 1)))))
   \<and> python_quotient_raises (PyFloat (Fin 100)) (PyFloat (Fin 0))
   \<and> (\<exists>elast price.
         bs_elasticity (Float64 (Fin 100)) (Float64 (Fin 0)) (Float64 (Fin 0)) (PyFloat (Fin 0))
           (Float64 (Fin (- 1))) ''call'' = Inr [elast, price])
   \<and> (\<exists>l. leverage_return (example_quote ''call'' 30 0) (to_double 0.01) ''call'' = Inr l)
   \<and> weighted_subset (map (\<lambda>q. q\<lparr>iv := Fin (- 1)\<rparr>) [example_quote ''call'' 30 0.2])
        (Fin 1) (Fin 30) ''call''
       = map_sum id (map (\<lambda>(q, w). (q\<lparr>iv := Fin (- 1)\<rparr>, w)))
           (weighted_subset [example_quote ''call'' 30 0.2] (Fin 1) (Fin 30) ''call'')"
proof -
  have f: "\<forall>q :: quote. option_type (q\<lparr>iv := Fin (- 1)\<rparr>) = option_type q
         \<and> moneyness (q\<lparr>iv := Fin (- 1)\<rparr>) = moneyness q \<and> ttm (q\<lparr>iv := Fin (- 1)\<rparr>) = ttm q"
    by simp
  have z: "python_quotient_raises (PyFloat (Fin 100)) (PyFloat (Fin 0))"
    by (simp add: is_zero_def)
  from bs_elasticity_validates_nothing [OF f, of "PyFloat (Fin 100)" "PyFloat (Fin 0)" "PyFloat (Fin 0)"
      "PyFloat (Fin 0)" "PyFloat (Fin (- 1))" "''call''" "Fin 100" "Fin 0" "Fin 0" "Fin (- 1)"
      "example_quote ''call'' 30 0" "to_double 0.01" "[example_quote ''call'' 30 0.2]" "Fin 1" "Fin 30"
      "''call''"] f z
  show ?thesis by simp
qed

text \<open>
  Claim C6 fails: with \<open>T = 0\<close> (and \<open>S = K\<close>) \<open>bs_elasticity\<close> returns the pair
  \<open>(nan, nan)\<close> and raises nothing, on numpy doubles and on Python floats, and a
  row with volatility \<open>0\<close> is kept in its bucket with weight \<open>1\<close>.
\<close>

theorem bs_elasticity_validates_nothing_counterexample:
  "bs_elasticity (Float64 (Fin 100)) (Float64 (Fin 100)) (Float64 (Fin 0)) (PyFloat (to_double 0.01))
     (Float64 (to_double 0.2)) ''call'' = Inr [NaN, NaN]
   \<and> bs_elasticity (PyFloat (Fin 100)) (PyFloat (Fin 100)) (PyFloat (Fin 0)) (PyFloat (to_double 0.01))
     (PyFloat (to_double 0.2)) ''call'' = Inr [NaN, NaN]
   \<and> weighted_subset [example_quote ''call'' 30 0] (Fin 1) (Fin 30) ''call''
       = Inr [(example_quote ''call'' 30 0, Fin 1)]"
  using bs_elasticity_at_expiry [of 100 "PyFloat (to_double 0.01)" "to_double 0.2" "''call''"]
    python_floats_at_expiry weighted_subset_zero_vol
  by simp

section \<open>Leverage-adjusted returns\<close>








end
